theory Spec2Isabelle
  imports Main
begin

section \<open>Day 12: a one-dimensional cellular automaton on a linked list of pots\<close>

text \<open>
  The notebook keeps the tape as a doubly linked chain of \<open>Pot\<close> objects around a root
  pot, creates new pots lazily through \<open>PotentialPot\<close> placeholders and updates the
  chain in place. Objects are modelled by addresses into an explicit heap, exceptions by
  values of a sum type, and loops that Python may run forever by partial functions whose
  value \<open>None\<close> stands for "does not return".
\<close>

subsection \<open>Exceptions\<close>

datatype error = AssertionError | AttributeError | KeyError | ValueError | StopIteration

subsection \<open>Pots and the heap\<close>

type_synonym addr = nat

datatype dir = Left | Right

text \<open>\<open>_reverse = {'left': 'right', 'right': 'left'}\<close>\<close>

fun reverse :: "dir \<Rightarrow> dir" where
  "reverse Left = Right"
| "reverse Right = Left"

text \<open>A \<open>Pot\<close> object: the \<open>plant\<close> flag and the two optional neighbours.\<close>

record pot =
  plant :: bool
  left :: "addr option"
  right :: "addr option"

text \<open>
  The heap maps every address to the pot stored there; \<open>fresh\<close> is the next unused
  address, so that each constructor call yields an object distinct from all earlier ones.
\<close>

record heap =
  cells :: "addr \<Rightarrow> pot"
  fresh :: addr

definition empty_heap :: heap where
  "empty_heap = \<lparr>cells = (\<lambda>_. \<lparr>plant = False, left = None, right = None\<rparr>), fresh = 0\<rparr>"

text \<open>\<open>getattr(pot, dir)\<close> and \<open>setattr(pot, dir, v)\<close>\<close>

fun getattr :: "pot \<Rightarrow> dir \<Rightarrow> addr option" where
  "getattr p Left = left p"
| "getattr p Right = right p"

fun setattr :: "pot \<Rightarrow> dir \<Rightarrow> addr option \<Rightarrow> pot" where
  "setattr p Left v = p\<lparr>left := v\<rparr>"
| "setattr p Right v = p\<lparr>right := v\<rparr>"

definition set_link :: "heap \<Rightarrow> addr \<Rightarrow> dir \<Rightarrow> addr option \<Rightarrow> heap" where
  "set_link h a d v = h\<lparr>cells := (cells h)(a := setattr (cells h a) d v)\<rparr>"

text \<open>Assignment to the \<open>plant\<close> attribute of a real pot.\<close>

definition set_plant :: "heap \<Rightarrow> addr \<Rightarrow> bool \<Rightarrow> heap" where
  "set_plant h a v = h\<lparr>cells := (cells h)(a := (cells h a)\<lparr>plant := v\<rparr>)\<rparr>"

text \<open>\<open>Pot(plant)\<close>: the dataclass constructor followed by \<open>__post_init__\<close>.\<close>

definition new_pot :: "heap \<Rightarrow> bool \<Rightarrow> heap \<times> addr" where
  "new_pot h v =
     (h\<lparr>cells := (cells h)(fresh h := \<lparr>plant = v, left = None, right = None\<rparr>),
        fresh := Suc (fresh h)\<rparr>, fresh h)"

text \<open>
  \<open>Pot.append(self, dir, pot)\<close>: the assertion looks at the parent only; both attribute
  writes happen in the order of the source. The returned pot is the argument \<open>pot\<close>.
\<close>

definition append :: "heap \<Rightarrow> addr \<Rightarrow> dir \<Rightarrow> addr \<Rightarrow> error + heap" where
  "append h self d pot =
     (if getattr (cells h self) d \<noteq> None then Inl AssertionError
      else Inr (set_link (set_link h self d (Some pot)) pot (reverse d) (Some self)))"

text \<open>\<open>Pot.detach(self, dir)\<close> returns the former neighbour.\<close>

definition detach :: "heap \<Rightarrow> addr \<Rightarrow> dir \<Rightarrow> error + heap \<times> addr" where
  "detach h self d =
     (case getattr (cells h self) d of
        None \<Rightarrow> Inl AssertionError
      | Some next \<Rightarrow> Inr (set_link (set_link h self d None) next (reverse d) None, next))"

text \<open>
  \<open>Pot.iter_dir(self, dir)\<close>, collected into the list of the pots it yields. On a cyclic
  chain the generator never ends.
\<close>

partial_function (option) iter_dir :: "heap \<Rightarrow> addr \<Rightarrow> dir \<Rightarrow> addr list option" where
  "iter_dir h p d =
     (case getattr (cells h p) d of
        None \<Rightarrow> Some []
      | Some q \<Rightarrow> Option.bind (iter_dir h q d) (\<lambda>qs. Some (q # qs)))"

declare iter_dir.simps [code]

text \<open>The loop of \<open>Pot.from_initial\<close>: one new pot per character, appended on the right.\<close>

fun from_initial_loop :: "heap \<Rightarrow> addr \<Rightarrow> string \<Rightarrow> error + heap" where
  "from_initial_loop h pot [] = Inr h"
| "from_initial_loop h pot (c # cs) =
     (let (h1, new) = new_pot h (c = CHR ''#'')
      in case append h1 pot Right new of
           Inl e \<Rightarrow> Inl e
         | Inr h2 \<Rightarrow> from_initial_loop h2 new cs)"

text \<open>
  \<open>Pot.from_initial(initial)\<close>. The last statement is \<open>root, root.left = start.right, None\<close>:
  when \<open>start.right\<close> is \<open>None\<close> the attribute assignment on \<open>None\<close> raises.
\<close>

definition from_initial :: "heap \<Rightarrow> string \<Rightarrow> error + heap \<times> addr" where
  "from_initial h initial =
     (let (h0, start) = new_pot h False
      in case from_initial_loop h0 start initial of
           Inl e \<Rightarrow> Inl e
         | Inr h1 \<Rightarrow>
             (case right (cells h1 start) of
                None \<Rightarrow> Inl AttributeError
              | Some root \<Rightarrow> Inr (set_link h1 root Left None, root)))"

subsection \<open>Potential pots\<close>

text \<open>
  A \<open>PotentialPot\<close> lives only inside the generator that created it and in the loop that
  consumes it; no real pot ever points to it. It is therefore kept as a value: its parent,
  its direction and the pot it has linked in, if any. (Its own reverse attribute, set in
  \<open>__post_init__\<close>, repeats \<open>parent\<close> and is never read.)
\<close>

record potential_pot =
  parent :: addr
  pdir :: dir
  linked :: "addr option"

definition new_potential_pot :: "addr \<Rightarrow> dir \<Rightarrow> potential_pot" where
  "new_potential_pot p d = \<lparr>parent = p, pdir = d, linked = None\<rparr>"

text \<open>The \<open>plant\<close> property of a potential pot: getter and setter.\<close>

definition potential_plant :: "heap \<Rightarrow> potential_pot \<Rightarrow> bool" where
  "potential_plant h pp = (case linked pp of Some l \<Rightarrow> plant (cells h l) | None \<Rightarrow> False)"

definition potential_set_plant ::
    "heap \<Rightarrow> potential_pot \<Rightarrow> bool \<Rightarrow> error + heap \<times> potential_pot" where
  "potential_set_plant h pp v =
     (case linked pp of
        Some l \<Rightarrow> Inr (set_plant h l v, pp)
      | None \<Rightarrow>
          if v then
            (let (h1, new) = new_pot h v
             in case append h1 (parent pp) (pdir pp) new of
                  Inl e \<Rightarrow> Inl e
                | Inr h2 \<Rightarrow> Inr (h2, pp\<lparr>linked := Some new\<rparr>))
          else Inr (h, pp))"

text \<open>
  The generator \<open>with_potentials\<close>. Its items are real pots or potential pots. Between two
  items it is suspended either inside the \<open>for p in self.iter_dir(dir)\<close> loop at pot \<open>p\<close>
  (initially \<open>self\<close>), or right after \<open>yield potpot\<close>; the potential pot is shared with the
  consumer, whose writes the generator sees when it resumes.
\<close>

datatype item = Real addr | Potential potential_pot

datatype gen = In_iter addr | At_potential potential_pot

definition pot_with_potentials :: "heap \<Rightarrow> addr \<Rightarrow> dir \<Rightarrow> item \<times> gen" where
  "pot_with_potentials h p d =
     (case getattr (cells h p) d of
        Some q \<Rightarrow> (Real q, In_iter q)
      | None \<Rightarrow> (let potpot = new_potential_pot p d
                 in (Potential potpot, At_potential potpot)))"

definition with_potentials_next :: "heap \<Rightarrow> gen \<Rightarrow> dir \<Rightarrow> (item \<times> gen) option" where
  "with_potentials_next h g d =
     (case g of
        In_iter p \<Rightarrow> Some (pot_with_potentials h p d)
      | At_potential potpot \<Rightarrow>
          (case linked potpot of
             Some l \<Rightarrow> Some (pot_with_potentials h l d)
           | None \<Rightarrow> None))"

subsection \<open>Rules\<close>

type_synonym state = "bool list"

type_synonym rules = "bool list \<rightharpoonup> bool"

text \<open>\<open>_rule_parse = re.compile('[.#]').findall\<close>\<close>

definition rule_parse :: "string \<Rightarrow> string" where
  "rule_parse line = filter (\<lambda>c. c = CHR ''.'' \<or> c = CHR ''#'') line"

text \<open>
  \<open>str.isspace\<close> on one character, for code points below 256: the ASCII controls
  9 to 13 and 28 to 31, the space, NEL (133) and the no-break space (160).
\<close>

definition isspace :: "char \<Rightarrow> bool" where
  "isspace c = (of_char c \<in> set ([9, 10, 11, 12, 13, 28, 29, 30, 31, 32, 133, 160] :: nat list))"

definition strip :: "string \<Rightarrow> string" where
  "strip s = rev (dropWhile isspace (rev (dropWhile isspace s)))"

text \<open>The rotation functions of \<open>_for_d\<close>: \<open>[p, *s[:4]]\<close> and \<open>[*s[-4:], p]\<close>.\<close>

fun rot :: "dir \<Rightarrow> state \<Rightarrow> bool \<Rightarrow> state" where
  "rot Left s p = p # take 4 s"
| "rot Right s p = drop (length s - 4) s @ [p]"

text \<open>\<open>_blank_rules = dict.fromkeys(product([False, True], repeat=5), False)\<close>\<close>

definition blank_rules :: rules where
  "blank_rules =
     foldl (\<lambda>m k. m(k \<mapsto> False)) Map.empty (product_lists (replicate 5 [False, True]))"

text \<open>
  The generator \<open>parsed\<close> of \<open>Rules.from_lines\<close>: blank lines are dropped, every other
  line becomes the list of booleans of its \<open>.\<close> and \<open>#\<close> characters.
\<close>

definition parsed :: "string list \<Rightarrow> bool list list" where
  "parsed lines =
     map (\<lambda>line. map (\<lambda>c. c = CHR ''#'') (rule_parse line))
       (filter (\<lambda>line. strip line \<noteq> []) lines)"

text \<open>
  The dictionary comprehension \<open>{tuple(k): r for *k, r in parsed}\<close>: the unpacking of an
  empty sequence raises \<open>ValueError\<close>; a later entry overwrites an earlier one.
\<close>

fun rule_dict :: "rules \<Rightarrow> bool list list \<Rightarrow> error + rules" where
  "rule_dict m [] = Inr m"
| "rule_dict m (e # es) =
     (if e = [] then Inl ValueError else rule_dict (m(butlast e \<mapsto> last e)) es)"

definition rules_from_lines :: "string list \<Rightarrow> error + rules" where
  "rules_from_lines lines =
     (case rule_dict Map.empty (parsed lines) of
        Inl e \<Rightarrow> Inl e
      | Inr d \<Rightarrow> Inr (blank_rules ++ d))"

text \<open>\<open>next_plant_state = self.mapping.__getitem__\<close>\<close>

definition next_plant_state :: "rules \<Rightarrow> state \<Rightarrow> error + bool" where
  "next_plant_state m s = (case m s of None \<Rightarrow> Inl KeyError | Some v \<Rightarrow> Inr v)"

subsection \<open>Applying the rules to the chain\<close>

text \<open>
  The lookahead iterator \<open>chain((p.plant for p in root.iter_dir(dir)), repeat(False))\<close>.
  Its state is the pot at which \<open>iter_dir\<close> is suspended (the root before the first
  item), or \<open>None\<close> once \<open>iter_dir\<close> has ended and \<open>chain\<close> has moved on to
  \<open>repeat(False)\<close> for good. The link and the plant are read when the item is requested.
\<close>

definition lookahead_next :: "heap \<Rightarrow> addr option \<Rightarrow> dir \<Rightarrow> bool \<times> addr option" where
  "lookahead_next h la d =
     (case la of
        None \<Rightarrow> (False, None)
      | Some p \<Rightarrow>
          (case getattr (cells h p) d of
             None \<Rightarrow> (False, None)
           | Some q \<Rightarrow> (plant (cells h q), Some q)))"

text \<open>
  One round of the first loop of \<open>Rules.apply\<close>: a new lookahead for the direction, two
  items taken from it by \<open>islice\<close> and rotated into the state.
\<close>

definition central_dir :: "heap \<Rightarrow> addr \<Rightarrow> dir \<Rightarrow> state \<Rightarrow> state \<times> addr option" where
  "central_dir h root d s =
     (let (plant1, la1) = lookahead_next h (Some root) d;
          s1 = rot d s plant1;
          (plant2, la2) = lookahead_next h la1 d;
          s2 = rot d s1 plant2
      in (s2, la2))"

text \<open>
  The loop \<open>for pot, nextplant in zip(pot.with_potentials(dir), lookahead)\<close>. \<open>zip\<close> asks
  the first iterator first and stops when it ends. The result is the heap and the last
  value bound to \<open>pot\<close>.
\<close>

partial_function (option) walk ::
    "rules \<Rightarrow> dir \<Rightarrow> heap \<Rightarrow> gen \<Rightarrow> addr option \<Rightarrow> state \<Rightarrow> item \<Rightarrow> (error + heap \<times> item) option"
where
  "walk m d h g la s pot =
     (case with_potentials_next h g d of
        None \<Rightarrow> Some (Inr (h, pot))
      | Some (it, g') \<Rightarrow>
          (let (nextplant, la') = lookahead_next h la d;
               s' = rot d s nextplant
           in case next_plant_state m s' of
                Inl e \<Rightarrow> Some (Inl e)
              | Inr v \<Rightarrow>
                  (case it of
                     Real q \<Rightarrow> walk m d (set_plant h q v) g' la' s' (Real q)
                   | Potential potpot \<Rightarrow>
                       (case potential_set_plant h potpot v of
                          Inl e \<Rightarrow> Some (Inl e)
                        | Inr (h', potpot') \<Rightarrow>
                            walk m d h' (At_potential potpot') la' s' (Potential potpot')))))"

declare walk.simps [code]

text \<open>\<open>while not pot.plant and pot is not root: pot = pot.detach(rev)\<close>\<close>

partial_function (option) trim :: "heap \<Rightarrow> addr \<Rightarrow> dir \<Rightarrow> addr \<Rightarrow> (error + heap) option" where
  "trim h root rv pot =
     (if \<not> plant (cells h pot) \<and> pot \<noteq> root then
        (case detach h pot rv of
           Inl e \<Rightarrow> Some (Inl e)
         | Inr (h', pot') \<Rightarrow> trim h' root rv pot')
      else Some (Inr h))"

declare trim.simps [code]

text \<open>One round of the second loop of \<open>Rules.apply\<close>: the walk, the assertion, the trimming.\<close>

definition apply_dir ::
    "rules \<Rightarrow> dir \<Rightarrow> heap \<Rightarrow> addr \<Rightarrow> addr option \<Rightarrow> state \<Rightarrow> (error + heap) option" where
  "apply_dir m d h root la central_state =
     (case walk m d h (In_iter root) la central_state (Real root) of
        None \<Rightarrow> None
      | Some (Inl e) \<Rightarrow> Some (Inl e)
      | Some (Inr (h', pot)) \<Rightarrow>
          (case pot of
             Real _ \<Rightarrow> Some (Inl AssertionError)
           | Potential potpot \<Rightarrow> trim h' root (reverse d) (parent potpot)))"

text \<open>
  \<open>Rules.apply(self, root)\<close>, named \<open>rules_apply\<close> here: left before right, as
  \<open>_for_d\<close> lists them.
\<close>

definition rules_apply :: "rules \<Rightarrow> heap \<Rightarrow> addr \<Rightarrow> (error + heap) option" where
  "rules_apply m h root =
     (let s0 = [plant (cells h root)];
          (s1, la_left) = central_dir h root Left s0;
          (central_state, la_right) = central_dir h root Right s1
      in case next_plant_state m central_state of
           Inl e \<Rightarrow> Some (Inl e)
         | Inr v \<Rightarrow>
             (case apply_dir m Left (set_plant h root v) root la_left central_state of
                None \<Rightarrow> None
              | Some (Inl e) \<Rightarrow> Some (Inl e)
              | Some (Inr h1) \<Rightarrow> apply_dir m Right h1 root la_right central_state))"

subsection \<open>Plants\<close>

text \<open>\<open>Plants.step\<close> is \<open>self.rules.apply(self.root)\<close>; \<open>steps n\<close> calls it \<open>n\<close> times.\<close>

definition step :: "rules \<Rightarrow> addr \<Rightarrow> heap \<Rightarrow> (error + heap) option" where
  "step m root h = rules_apply m h root"

fun steps :: "nat \<Rightarrow> rules \<Rightarrow> addr \<Rightarrow> heap \<Rightarrow> (error + heap) option" where
  "steps 0 m root h = Some (Inr h)"
| "steps (Suc n) m root h =
     (case step m root h of
        None \<Rightarrow> None
      | Some (Inl e) \<Rightarrow> Some (Inl e)
      | Some (Inr h') \<Rightarrow> steps n m root h')"

text \<open>\<open>Pot.__str__\<close> and \<open>Plants.__str__\<close>\<close>

definition pot_str :: "pot \<Rightarrow> char" where
  "pot_str p = (if plant p then CHR ''#'' else CHR ''.'')"

definition plants_str :: "heap \<Rightarrow> addr \<Rightarrow> string option" where
  "plants_str h root =
     (case iter_dir h root Left of
        None \<Rightarrow> None
      | Some ls \<Rightarrow>
          (case iter_dir h root Right of
             None \<Rightarrow> None
           | Some rs \<Rightarrow>
               Some (rev (map (\<lambda>p. pot_str (cells h p)) (root # ls))
                       @ map (\<lambda>p. pot_str (cells h p)) rs)))"

text \<open>
  \<open>Plants.score\<close>: \<open>sum(i for i, p in enumerate(..., 1) if p.plant)\<close> to the right minus
  the same sum to the left.
\<close>

definition score_dir :: "heap \<Rightarrow> addr list \<Rightarrow> int" where
  "score_dir h ps =
     sum_list (map (\<lambda>(i, p). int i) (filter (\<lambda>(i, p). plant (cells h p)) (enumerate 1 ps)))"

definition score :: "heap \<Rightarrow> addr \<Rightarrow> int option" where
  "score h root =
     (case iter_dir h root Right of
        None \<Rightarrow> None
      | Some rs \<Rightarrow>
          (case iter_dir h root Left of
             None \<Rightarrow> None
           | Some ls \<Rightarrow> Some (score_dir h rs - score_dir h ls)))"

text \<open>
  \<open>str.partition(sep)[-1]\<close> for a non-empty separator: what follows the first occurrence
  of \<open>sep\<close>, or the empty string when \<open>sep\<close> does not occur.
\<close>

fun partition_last :: "string \<Rightarrow> string \<Rightarrow> string" where
  "partition_last sep [] = []"
| "partition_last sep (c # cs) =
     (if take (length sep) (c # cs) = sep then drop (length sep) (c # cs)
      else partition_last sep cs)"

text \<open>
  \<open>Plants.from_lines(lines)\<close>: the first line holds the initial state, the remaining lines
  the rules. \<open>next(it)\<close> on an empty input raises \<open>StopIteration\<close>. The result is the heap
  with the chain, the root and the rules.
\<close>

definition plants_from_lines :: "heap \<Rightarrow> string list \<Rightarrow> error + heap \<times> addr \<times> rules" where
  "plants_from_lines h lines =
     (case lines of
        [] \<Rightarrow> Inl StopIteration
      | first # it \<Rightarrow>
          (let initial = strip (partition_last ''initial state:'' first)
           in case from_initial h initial of
                Inl e \<Rightarrow> Inl e
              | Inr (h', root) \<Rightarrow>
                  (case rules_from_lines it of
                     Inl e \<Rightarrow> Inl e
                   | Inr m \<Rightarrow> Inr (h', root, m))))"

text \<open>
  The test cell of the notebook, for any input and any number of generations: load the
  lines, call \<open>step\<close> \<open>n\<close> times, then read the score, or print the tape. \<open>None\<close> stands for
  an exception or for a call that does not return.
\<close>

definition score_after :: "string list \<Rightarrow> nat \<Rightarrow> int option" where
  "score_after lines n =
     (case plants_from_lines empty_heap lines of
        Inl e \<Rightarrow> None
      | Inr (h, root, m) \<Rightarrow>
          (case steps n m root h of
             Some (Inr h') \<Rightarrow> score h' root
           | _ \<Rightarrow> None))"

definition tape_after :: "string list \<Rightarrow> nat \<Rightarrow> string option" where
  "tape_after lines n =
     (case plants_from_lines empty_heap lines of
        Inl e \<Rightarrow> None
      | Inr (h, root, m) \<Rightarrow>
          (case steps n m root h of
             Some (Inr h') \<Rightarrow> plants_str h' root
           | _ \<Rightarrow> None))"

text \<open>The lines of the test cell, as \<open>splitlines\<close> returns them.\<close>

definition testplants_lines :: "string list" where
  "testplants_lines =
     [''initial state: #..#.#..##......###...###'',
      [],
      ''...## => #'',
      ''..#.. => #'',
      ''.#... => #'',
      ''.#.#. => #'',
      ''.#.## => #'',
      ''.##.. => #'',
      ''.#### => #'',
      ''#.#.# => #'',
      ''#.### => #'',
      ''##.#. => #'',
      ''##.## => #'',
      ''###.. => #'',
      ''###.# => #'',
      ''####. => #'']"

section \<open>Chains in the heap\<close>

text \<open>
  \<open>dpath h d p as\<close>: starting at pot \<open>p\<close> and following the attribute \<open>d\<close>, the pots met
  are exactly \<open>as\<close>, the last one has no neighbour in that direction, and every pot points
  back to its predecessor through the reverse attribute.
\<close>

fun dpath :: "heap \<Rightarrow> dir \<Rightarrow> addr \<Rightarrow> addr list \<Rightarrow> bool" where
  "dpath h d p [] = (getattr (cells h p) d = None)"
| "dpath h d p (a # as) =
     (getattr (cells h p) d = Some a \<and> getattr (cells h a) (reverse d) = Some p \<and> dpath h d a as)"

text \<open>
  \<open>tape h root ls rs\<close>: the pots left of the root are \<open>ls\<close> and those right of it are \<open>rs\<close>,
  nearest first; all of them are distinct allocated objects.
\<close>

definition tape :: "heap \<Rightarrow> addr \<Rightarrow> addr list \<Rightarrow> addr list \<Rightarrow> bool" where
  "tape h root ls rs =
     (dpath h Left root ls \<and> dpath h Right root rs \<and> distinct (root # ls @ rs)
      \<and> (\<forall>a \<in> set (root # ls @ rs). a < fresh h))"

definition plants_of :: "heap \<Rightarrow> addr list \<Rightarrow> bool list" where
  "plants_of h as = map (\<lambda>a. plant (cells h a)) as"

section \<open>The rule table in the words of the specification\<close>

text \<open>
  The specification describes the table through rule entries, pairs of a pattern and a
  result: a lookup gives the result of the last supplied entry for the pattern, if there is
  one. \<open>last_entry\<close> is that description; the table of the source is \<open>rules_from_lines\<close>.
\<close>

definition last_entry :: "(bool list \<times> bool) list \<Rightarrow> bool list \<Rightarrow> bool option" where
  "last_entry entries p =
     (case filter (\<lambda>(k, r). k = p) entries of [] \<Rightarrow> None | es \<Rightarrow> Some (snd (last es)))"

text \<open>
  The line \<open>PPPPP => R\<close> of the rule format for an entry, \<open>#\<close> for true and \<open>.\<close> for
  false.
\<close>

definition plant_char :: "bool \<Rightarrow> char" where
  "plant_char b = (if b then CHR ''#'' else CHR ''.'')"

definition entry_line :: "bool list \<times> bool \<Rightarrow> string" where
  "entry_line e = map plant_char (fst e) @ '' => '' @ [plant_char (snd e)]"


section \<open>The score in the words of the specification\<close>

text \<open>
  Every pot of the tape with its signed position: the pots left of the root at
  \<open>-1, -2, ...\<close>, the root at \<open>0\<close>, the pots right of it at \<open>1, 2, ...\<close>.
  \<open>true_offsets\<close> is the set of positions whose pot holds a plant.
\<close>

definition positions :: "addr \<Rightarrow> addr list \<Rightarrow> addr list \<Rightarrow> (int \<times> addr) list" where
  "positions root ls rs =
     map (\<lambda>(k, p). (- int k, p)) (enumerate 1 ls) @ [(0, root)]
       @ map (\<lambda>(k, p). (int k, p)) (enumerate 1 rs)"

definition true_offsets :: "heap \<Rightarrow> addr \<Rightarrow> addr list \<Rightarrow> addr list \<Rightarrow> int set" where
  "true_offsets h root ls rs =
     set (map fst (filter (\<lambda>(i, p). plant (cells h p)) (positions root ls rs)))"

text \<open>A tape with plants exactly at the positions \<open>-2\<close>, \<open>0\<close> and \<open>3\<close>.\<close>

definition score_example :: heap where
  "score_example =
     \<lparr>cells = (\<lambda>_. \<lparr>plant = False, left = None, right = None\<rparr>)
        (0 := \<lparr>plant = True, left = Some 1, right = Some 3\<rparr>,
         1 := \<lparr>plant = False, left = Some 2, right = Some 0\<rparr>,
         2 := \<lparr>plant = True, left = None, right = Some 1\<rparr>,
         3 := \<lparr>plant = False, left = Some 0, right = Some 4\<rparr>,
         4 := \<lparr>plant = False, left = Some 3, right = Some 5\<rparr>,
         5 := \<lparr>plant = True, left = Some 4, right = None\<rparr>),
      fresh = 6\<rparr>"


section \<open>One generation on lists of booleans\<close>

text \<open>
  What \<open>Rules.apply\<close> computes, told on the plants alone: the tape is the list of plants
  left of the root (nearest first), the plant of the root, and the list of plants right of
  it. These functions follow the loops of the source step by step; the theorems below show
  that the heap program computes them.
\<close>

definition rule_of :: "rules \<Rightarrow> state \<Rightarrow> bool" where
  "rule_of m s = (m s = Some True)"

text \<open>The table has an entry for each of the 32 patterns of five booleans.\<close>

definition total5 :: "rules \<Rightarrow> bool" where
  "total5 m = list_all (\<lambda>p. m p \<noteq> None) (product_lists (replicate 5 [False, True]))"

text \<open>The first and the second element of a list of plants, \<open>False\<close> where the list ends.\<close>

definition first_plant :: "bool list \<Rightarrow> bool" where
  "first_plant xs = (case xs of x # _ \<Rightarrow> x | [] \<Rightarrow> False)"

definition second_plant :: "bool list \<Rightarrow> bool" where
  "second_plant xs = (case xs of _ # y # _ \<Rightarrow> y | _ \<Rightarrow> False)"

text \<open>The pot at which the lookahead is suspended when the pots \<open>as\<close> are still to be written.\<close>

definition la_of :: "addr list \<Rightarrow> addr option" where
  "la_of as = (case as of _ # b # _ \<Rightarrow> Some b | _ \<Rightarrow> None)"

text \<open>The state after the two rotations of the first loop, for one direction.\<close>

definition central_plants :: "dir \<Rightarrow> state \<Rightarrow> bool list \<Rightarrow> state" where
  "central_plants d s xs = rot d (rot d s (first_plant xs)) (second_plant xs)"

text \<open>
  The walk over the real pots: \<open>xs\<close> are the old plants of the pots still to be written,
  \<open>s\<close> is the state of the pot written last. The lookahead delivers the old plant two
  pots beyond the one being written. The result is the list of new plants and the final
  state.
\<close>

fun sweep :: "rules \<Rightarrow> dir \<Rightarrow> state \<Rightarrow> bool list \<Rightarrow> bool list \<times> state" where
  "sweep m d s [] = ([], s)"
| "sweep m d s (x # xs) =
     (let s' = rot d s (second_plant xs);
          (vs, sf) = sweep m d s' xs
      in (rule_of m s' # vs, sf))"

text \<open>
  The walk over the potential pots: each one reads \<open>False\<close> from the lookahead; the walk
  goes on as long as the rule gives a plant. The first argument bounds the number of
  potential pots visited; \<open>None\<close> says that the bound was not enough.
\<close>

fun grow :: "nat \<Rightarrow> rules \<Rightarrow> dir \<Rightarrow> state \<Rightarrow> bool list option" where
  "grow 0 m d s = None"
| "grow (Suc n) m d s =
     (let s' = rot d s False
      in if rule_of m s' then map_option (Cons True) (grow n m d s') else Some [])"

text \<open>Trimming drops the pots without a plant at the far end.\<close>

definition trimmed :: "bool list \<Rightarrow> bool list" where
  "trimmed xs = rev (dropWhile Not (rev xs))"

definition plants_dir :: "nat \<Rightarrow> rules \<Rightarrow> dir \<Rightarrow> state \<Rightarrow> bool list \<Rightarrow> bool list option" where
  "plants_dir n m d central_state xs =
     (let (vs, sf) = sweep m d central_state xs
      in map_option (\<lambda>g. trimmed (vs @ g)) (grow n m d sf))"

type_synonym plants_tape = "bool list \<times> bool \<times> bool list"

definition plants_step :: "nat \<Rightarrow> rules \<Rightarrow> plants_tape \<Rightarrow> plants_tape option" where
  "plants_step n m t =
     (case t of (ls, c, rs) \<Rightarrow>
        (let central_state = central_plants Right (central_plants Left [c] ls) rs
         in case plants_dir n m Left central_state ls of
              None \<Rightarrow> None
            | Some ls' \<Rightarrow>
                (case plants_dir n m Right central_state rs of
                   None \<Rightarrow> None
                 | Some rs' \<Rightarrow> Some (ls', rule_of m central_state, rs'))))"

fun plants_steps :: "nat \<Rightarrow> nat \<Rightarrow> rules \<Rightarrow> plants_tape \<Rightarrow> plants_tape option" where
  "plants_steps 0 n m t = Some t"
| "plants_steps (Suc k) n m t =
     (case plants_step n m t of None \<Rightarrow> None | Some t' \<Rightarrow> plants_steps k n m t')"

text \<open>The plants written by the walk over the real pots, stored into the heap.\<close>

fun write_plants :: "heap \<Rightarrow> addr list \<Rightarrow> bool list \<Rightarrow> heap" where
  "write_plants h (a # as) (v # vs) = write_plants (set_plant h a v) as vs"
| "write_plants h _ _ = h"

text \<open>The score as a function of the plants.\<close>

definition plants_score :: "plants_tape \<Rightarrow> int" where
  "plants_score t =
     (case t of (ls, c, rs) \<Rightarrow>
        sum_list (map (\<lambda>(i, b). int i) (filter snd (enumerate 1 rs)))
        - sum_list (map (\<lambda>(i, b). int i) (filter snd (enumerate 1 ls))))"

text \<open>The table maps each of the 32 patterns of five booleans to \<open>False\<close>.\<close>

definition all_false :: "rules \<Rightarrow> bool" where
  "all_false m = list_all (\<lambda>p. m p = Some False) (product_lists (replicate 5 [False, True]))"

text \<open>
  The generator \<open>with_potentials\<close> is about to continue from pot \<open>p\<close>: it is inside the
  loop over \<open>iter_dir\<close> at \<open>p\<close>, or it has yielded a potential pot that has linked in
  \<open>p\<close>.
\<close>

definition gen_at :: "gen \<Rightarrow> addr \<Rightarrow> bool" where
  "gen_at g p = (g = In_iter p \<or> (\<exists>pp. g = At_potential pp \<and> linked pp = Some p))"


section \<open>The pot sequences under construction, link, unlink and materialization\<close>

text \<open>
  \<open>chain h cs\<close>: the pots \<open>cs\<close>, from left to right, form a well-formed sequence: the
  first has no left neighbour, the last no right neighbour, neighbours point at each other,
  and all pots are distinct allocated objects.
\<close>

definition chain :: "heap \<Rightarrow> addr list \<Rightarrow> bool" where
  "chain h cs =
     (case cs of
        [] \<Rightarrow> False
      | c # cs' \<Rightarrow>
          getattr (cells h c) Left = None \<and> dpath h Right c cs' \<and> distinct cs
          \<and> (\<forall>a \<in> set cs. a < fresh h))"

text \<open>
  An unlink cuts a sequence in two, and both pieces stay in the heap; a link joins two
  sequences. So the pots are followed as a family of sequences: each one is well formed,
  and no pot belongs to two of them.
\<close>

definition chains :: "heap \<Rightarrow> addr list list \<Rightarrow> bool" where
  "chains h css =
     ((\<forall>cs \<in> set css. chain h cs)
      \<and> (\<forall>cs \<in> set css. \<forall>cs' \<in> set css. cs \<noteq> cs' \<longrightarrow> set cs \<inter> set cs' = {}))"

text \<open>The sequence of the family that holds pot \<open>a\<close>.\<close>

definition chain_of :: "addr list list \<Rightarrow> addr \<Rightarrow> addr list" where
  "chain_of css a = (case find (\<lambda>cs. a \<in> set cs) css of Some cs \<Rightarrow> cs | None \<Rightarrow> [])"

text \<open>
  The operations: the constructor \<open>Pot(plant)\<close>, \<open>append\<close> (link), \<open>detach\<close> (unlink), and
  the write of \<open>True\<close> to a potential pot that has not linked a pot yet (materialization).
\<close>

datatype chain_op = New bool | Link addr dir addr | Unlink addr dir | Materialize addr dir

fun exec_op :: "chain_op \<Rightarrow> heap \<Rightarrow> error + heap" where
  "exec_op (New v) h = Inr (fst (new_pot h v))"
| "exec_op (Link p d c) h = append h p d c"
| "exec_op (Unlink p d) h = (case detach h p d of Inl e \<Rightarrow> Inl e | Inr (h', n) \<Rightarrow> Inr h')"
| "exec_op (Materialize p d) h =
     (case potential_set_plant h (new_potential_pot p d) True of
        Inl e \<Rightarrow> Inl e
      | Inr (h', potpot) \<Rightarrow> Inr h')"

text \<open>
  The family after an operation. A link puts the sequence of the child next to the sequence
  of the parent, on the side \<open>d\<close>. An unlink cuts the sequence of the parent between the
  parent and its neighbour on the side \<open>d\<close>, and keeps both pieces. A new pot is a sequence
  of its own; a materialization makes a new pot and links it.
\<close>

definition link_chains :: "addr \<Rightarrow> dir \<Rightarrow> addr \<Rightarrow> addr list list \<Rightarrow> addr list list" where
  "link_chains p d c css =
     (case d of
        Right \<Rightarrow> chain_of css p @ chain_of css c
      | Left \<Rightarrow> chain_of css c @ chain_of css p)
     # filter (\<lambda>cs. p \<notin> set cs \<and> c \<notin> set cs) css"

definition unlink_chains :: "addr \<Rightarrow> dir \<Rightarrow> addr list list \<Rightarrow> addr list list" where
  "unlink_chains p d css =
     (case d of
        Right \<Rightarrow>
          [takeWhile (\<lambda>a. a \<noteq> p) (chain_of css p) @ [p],
           tl (dropWhile (\<lambda>a. a \<noteq> p) (chain_of css p))]
      | Left \<Rightarrow>
          [takeWhile (\<lambda>a. a \<noteq> p) (chain_of css p),
           dropWhile (\<lambda>a. a \<noteq> p) (chain_of css p)])
     @ filter (\<lambda>cs. p \<notin> set cs) css"

fun chains_after :: "chain_op \<Rightarrow> heap \<Rightarrow> addr list list \<Rightarrow> addr list list" where
  "chains_after (New v) h css = [fresh h] # css"
| "chains_after (Link p d c) h css = link_chains p d c css"
| "chains_after (Unlink p d) h css = unlink_chains p d css"
| "chains_after (Materialize p d) h css = link_chains p d (fresh h) ([fresh h] # css)"

text \<open>
  What an operation needs in order to keep the family well formed. The parent is a pot of
  the family. The child of a link is a pot of the family too (a pot of another sequence or
  a new pot), it has no neighbour on the side that will face the parent, and it is not in
  the parent's own sequence. Nothing is asked of the pot that an unlink cuts off.
\<close>

fun op_ok :: "chain_op \<Rightarrow> heap \<Rightarrow> addr list list \<Rightarrow> bool" where
  "op_ok (New v) h css = True"
| "op_ok (Link p d c) h css =
     (p \<in> set (concat css) \<and> c \<in> set (concat css) \<and> c \<notin> set (chain_of css p)
      \<and> getattr (cells h c) (reverse d) = None)"
| "op_ok (Unlink p d) h css = (p \<in> set (concat css))"
| "op_ok (Materialize p d) h css = (p \<in> set (concat css))"

fun run_ops :: "chain_op list \<Rightarrow> heap \<Rightarrow> addr list list \<Rightarrow> error + heap \<times> addr list list" where
  "run_ops [] h css = Inr (h, css)"
| "run_ops (x # xs) h css =
     (case exec_op x h of
        Inl e \<Rightarrow> Inl e
      | Inr h' \<Rightarrow> run_ops xs h' (chains_after x h css))"

fun ops_ok :: "chain_op list \<Rightarrow> heap \<Rightarrow> addr list list \<Rightarrow> bool" where
  "ops_ok [] h css = True"
| "ops_ok (x # xs) h css =
     (op_ok x h css
      \<and> (case exec_op x h of
            Inl e \<Rightarrow> True
          | Inr h' \<Rightarrow> ops_ok xs h' (chains_after x h css)))"

text \<open>A sequence of two pots, \<open>0\<close> and \<open>1\<close>.\<close>

definition two_pots :: heap where
  "two_pots =
     \<lparr>cells = (\<lambda>_. \<lparr>plant = False, left = None, right = None\<rparr>)
        (0 := \<lparr>plant = True, left = None, right = Some 1\<rparr>,
         1 := \<lparr>plant = True, left = Some 0, right = None\<rparr>),
      fresh = 2\<rparr>"

text \<open>A sequence of three pots, the last one without a plant.\<close>

definition three_pots :: heap where
  "three_pots =
     \<lparr>cells = (\<lambda>_. \<lparr>plant = False, left = None, right = None\<rparr>)
        (0 := \<lparr>plant = True, left = None, right = Some 1\<rparr>,
         1 := \<lparr>plant = True, left = Some 0, right = Some 2\<rparr>,
         2 := \<lparr>plant = False, left = Some 1, right = None\<rparr>),
      fresh = 3\<rparr>"

section \<open>Basic facts about the heap operations\<close>

lemma getattr_set_plant [simp]:
  "getattr (cells (set_plant h a v) b) d = getattr (cells h b) d"
  by (cases d) (simp_all add: set_plant_def)

lemma plant_set_plant [simp]:
  "plant (cells (set_plant h a v) b) = (if b = a then v else plant (cells h b))"
  by (simp add: set_plant_def)

lemma fresh_set_plant [simp]: "fresh (set_plant h a v) = fresh h"
  by (simp add: set_plant_def)

lemma getattr_set_link [simp]:
  "getattr (cells (set_link h a d v) b) d' =
     (if b = a \<and> d' = d then v else getattr (cells h b) d')"
  by (cases d; cases d') (simp_all add: set_link_def)

lemma left_right_set_plant [simp]:
  "left (cells (set_plant h a v) b) = left (cells h b)"
  "right (cells (set_plant h a v) b) = right (cells h b)"
  by (simp_all add: set_plant_def)

lemma left_right_set_link [simp]:
  "left (cells (set_link h a d v) b) = (if b = a \<and> d = Left then v else left (cells h b))"
  "right (cells (set_link h a d v) b) = (if b = a \<and> d = Right then v else right (cells h b))"
  by (cases d; simp add: set_link_def)+

lemma left_right_new_pot [simp]:
  "left (cells (fst (new_pot h v)) b) = (if b = fresh h then None else left (cells h b))"
  "right (cells (fst (new_pot h v)) b) = (if b = fresh h then None else right (cells h b))"
  by (simp_all add: new_pot_def)

lemma plant_set_link [simp]: "plant (cells (set_link h a d v) b) = plant (cells h b)"
  by (cases d) (simp_all add: set_link_def)

lemma fresh_set_link [simp]: "fresh (set_link h a d v) = fresh h"
  by (simp add: set_link_def)

lemma getattr_new_pot [simp]:
  "getattr (cells (fst (new_pot h v)) b) d = (if b = fresh h then None else getattr (cells h b) d)"
  by (cases d) (simp_all add: new_pot_def)

lemma plant_new_pot [simp]:
  "plant (cells (fst (new_pot h v)) b) = (if b = fresh h then v else plant (cells h b))"
  by (simp add: new_pot_def)

lemma fresh_new_pot [simp]: "fresh (fst (new_pot h v)) = Suc (fresh h)"
  by (simp add: new_pot_def)

lemma snd_new_pot [simp]: "snd (new_pot h v) = fresh h"
  by (simp add: new_pot_def)

lemma reverse_neq [simp]: "reverse d \<noteq> d" "d \<noteq> reverse d"
  by (cases d; simp)+

lemma reverse_reverse [simp]: "reverse (reverse d) = d"
  by (cases d) simp_all

lemma iter_dir_dpath: "dpath h d p as \<Longrightarrow> iter_dir h p d = Some as"
proof (induction as arbitrary: p)
  case Nil
  then show ?case by (subst iter_dir.simps) simp
next
  case (Cons a as)
  then show ?case by (subst iter_dir.simps) simp
qed

lemma dpath_cong:
  "\<lbrakk>dpath h d p as; \<forall>a \<in> set (p # as). cells h' a = cells h a\<rbrakk> \<Longrightarrow> dpath h' d p as"
  by (induction as arbitrary: p) auto


lemma dpath_set_plant [simp]: "dpath (set_plant h a v) d p as = dpath h d p as"
  by (induction as arbitrary: p) simp_all

lemma dpath_set_link:
  "\<lbrakk>b \<notin> set as; b = p \<longrightarrow> d' \<noteq> d\<rbrakk> \<Longrightarrow> dpath (set_link h b d' v) d p as = dpath h d p as"
  by (induction as arbitrary: p) auto

lemma dpath_new_pot:
  "\<lbrakk>fresh h \<notin> set as; fresh h \<noteq> p\<rbrakk> \<Longrightarrow> dpath (fst (new_pot h v)) d p as = dpath h d p as"
  by (induction as arbitrary: p) auto

lemma plants_of_set_plant [simp]:
  "a \<notin> set as \<Longrightarrow> plants_of (set_plant h a v) as = plants_of h as"
  by (simp add: plants_of_def)

lemma plants_of_set_link [simp]: "plants_of (set_link h a d v) as = plants_of h as"
  by (simp add: plants_of_def)

lemma from_initial_loop_ok:
  assumes "right (cells h pot) = None" "pot < fresh h"
  shows "\<exists>h'. from_initial_loop h pot cs = Inr h' \<and> fresh h' = fresh h + length cs
          \<and> dpath h' Right pot [fresh h..<fresh h + length cs]
          \<and> plants_of h' [fresh h..<fresh h + length cs] = map (\<lambda>c. c = CHR ''#'') cs
          \<and> (\<forall>a. a < fresh h \<and> a \<noteq> pot \<longrightarrow> cells h' a = cells h a)
          \<and> left (cells h' pot) = left (cells h pot)
          \<and> plant (cells h' pot) = plant (cells h pot)"
  using assms
proof (induction cs arbitrary: h pot)
  case Nil
  then show ?case by (simp add: plants_of_def)
next
  case (Cons c cs)
  define h2 where "h2 = set_link (set_link (fst (new_pot h (c = CHR ''#''))) pot Right (Some (fresh h))) (fresh h) Left (Some pot)"
  have step: "from_initial_loop h pot (c # cs) = from_initial_loop h2 (fresh h) cs"
    using Cons.prems by (simp add: new_pot_def append_def h2_def set_link_def)
  have f2: "fresh h2 = Suc (fresh h)" by (simp add: h2_def new_pot_def set_link_def)
  have r2: "right (cells h2 (fresh h)) = None" using Cons.prems
    by (simp add: h2_def new_pot_def set_link_def)
  from Cons.IH[of h2 "fresh h"] r2 f2 obtain h' where
    h': "from_initial_loop h2 (fresh h) cs = Inr h'" "fresh h' = fresh h2 + length cs"
        "dpath h' Right (fresh h) [fresh h2..<fresh h2 + length cs]"
        "plants_of h' [fresh h2..<fresh h2 + length cs] = map (\<lambda>c. c = CHR ''#'') cs"
        "\<forall>a. a < fresh h2 \<and> a \<noteq> fresh h \<longrightarrow> cells h' a = cells h2 a"
        "left (cells h' (fresh h)) = left (cells h2 (fresh h))"
        "plant (cells h' (fresh h)) = plant (cells h2 (fresh h))"
    by auto
  have potc: "cells h' pot = cells h2 pot" using h'(5) Cons.prems f2 by auto
  have c2pot: "cells h2 pot = (cells h pot)\<lparr>right := Some (fresh h)\<rparr>"
    using Cons.prems by (simp add: h2_def new_pot_def set_link_def)
  have c2new: "cells h2 (fresh h) = \<lparr>plant = (c = CHR ''#''), left = Some pot, right = None\<rparr>"
    using Cons.prems by (simp add: h2_def new_pot_def set_link_def)
  have c2other: "\<And>a. a < fresh h \<Longrightarrow> a \<noteq> pot \<Longrightarrow> cells h2 a = cells h a"
    by (simp add: h2_def new_pot_def set_link_def)
  have upt: "[fresh h..<fresh h + length (c # cs)] = fresh h # [fresh h2..<fresh h2 + length cs]"
    by (subst upt_rec) (simp add: f2)
  show ?case
    apply (rule exI[of _ h'])
    apply (simp only: step upt)
    using h' potc c2pot c2new c2other f2 Cons.prems
    by (auto simp: plants_of_def)
qed



lemma from_initial_ok:
  assumes "s \<noteq> []"
  shows "\<exists>h'. from_initial h s = Inr (h', Suc (fresh h))
          \<and> tape h' (Suc (fresh h)) [] [Suc (Suc (fresh h))..<Suc (fresh h) + length s]
          \<and> plants_of h' [Suc (fresh h)..<Suc (fresh h) + length s] = map (\<lambda>c. c = CHR ''#'') s
          \<and> fresh h' = Suc (fresh h) + length s"
proof -
  define h0 where "h0 = fst (new_pot h False)"
  have h0: "right (cells h0 (fresh h)) = None" "fresh h < fresh h0" "fresh h0 = Suc (fresh h)"
    by (simp_all add: h0_def new_pot_def)
  from from_initial_loop_ok[OF h0(1,2), of s] obtain h1 where
    h1: "from_initial_loop h0 (fresh h) s = Inr h1" "fresh h1 = fresh h0 + length s"
        "dpath h1 Right (fresh h) [fresh h0..<fresh h0 + length s]"
        "plants_of h1 [fresh h0..<fresh h0 + length s] = map (\<lambda>c. c = CHR ''#'') s"
    by auto
  obtain c cs where s: "s = c # cs" using assms by (cases s) auto
  let ?root = "Suc (fresh h)"
  let ?rs = "[Suc (Suc (fresh h))..<Suc (fresh h) + length s]"
  let ?h' = "set_link h1 ?root Left None"
  have upt: "[fresh h0..<fresh h0 + length s] = ?root # ?rs"
    by (subst upt_rec) (simp add: h0 s)
  have st: "right (cells h1 (fresh h)) = Some ?root" and dp: "dpath h1 Right ?root ?rs"
    using h1(3) unfolding upt by simp_all
  have res: "from_initial h s = Inr (?h', ?root)"
    using h1(1) st by (simp add: from_initial_def new_pot_def h0_def)
  have dp': "dpath ?h' Right ?root ?rs"
    using dp by (simp add: dpath_set_link)
  have "distinct (?root # ?rs)" "\<forall>a \<in> set (?root # ?rs). a < fresh ?h'"
    using h1(2) h0(3) s by auto
  then have "tape ?h' ?root [] ?rs"
    using dp' unfolding tape_def by simp
  moreover have "plants_of ?h' [?root..<?root + length s] = map (\<lambda>c. c = CHR ''#'') s"
    using h1(4) by (simp add: h0(3))
  ultimately show ?thesis using res h1(2) h0(3) by auto
qed

lemma last_notin_butlast: "\<lbrakk>distinct xs; xs \<noteq> []\<rbrakk> \<Longrightarrow> last xs \<notin> set (butlast xs)"
  by (induction xs) (auto dest: in_set_butlastD)


section \<open>The chain built by \<open>from_initial\<close>\<close>

lemma plants_str_tape:
  "tape h root ls rs \<Longrightarrow>
   plants_str h root =
     Some (rev (map (\<lambda>p. pot_str (cells h p)) (root # ls)) @ map (\<lambda>p. pot_str (cells h p)) rs)"
proof -
  assume t: "tape h root ls rs"
  then have "iter_dir h root Left = Some ls" "iter_dir h root Right = Some rs"
    by (simp_all add: tape_def iter_dir_dpath)
  then show ?thesis by (simp add: plants_str_def)
qed

lemma pot_str_plants_of:
  "map (\<lambda>p. pot_str (cells h p)) as = map (\<lambda>b. if b then CHR ''#'' else CHR ''.'') (plants_of h as)"
  by (simp add: plants_of_def pot_str_def)

lemma from_initial_str:
  assumes "s \<noteq> []"
  shows "\<exists>h' root. from_initial h s = Inr (h', root)
           \<and> plants_str h' root = Some (map (\<lambda>c. if c = CHR ''#'' then CHR ''#'' else CHR ''.'') s)
           \<and> iter_dir h' root Left = Some []
           \<and> plant (cells h' root) = (hd s = CHR ''#'')
           \<and> (\<exists>rs. iter_dir h' root Right = Some rs \<and> plants_of h' rs = map (\<lambda>c. c = CHR ''#'') (tl s))"
proof -
  let ?root = "Suc (fresh h)"
  let ?rs = "[Suc ?root..<?root + length s]"
  from from_initial_ok[OF assms, of h] obtain h' where
    h': "from_initial h s = Inr (h', ?root)" "tape h' ?root [] ?rs"
        "plants_of h' [?root..<?root + length s] = map (\<lambda>c. c = CHR ''#'') s"
    by auto
  have upt: "[?root..<?root + length s] = ?root # ?rs"
    using assms by (subst upt_rec) simp
  have "plants_str h' ?root = Some (map (\<lambda>b. if b then CHR ''#'' else CHR ''.'') (plants_of h' (?root # ?rs)))"
    using plants_str_tape[OF h'(2)] by (simp add: pot_str_plants_of plants_of_def del: upt_Suc)
  also have "plants_of h' (?root # ?rs) = map (\<lambda>c. c = CHR ''#'') s"
    using h'(3) unfolding upt .
  finally have str: "plants_str h' ?root = Some (map (\<lambda>c. if c = CHR ''#'' then CHR ''#'' else CHR ''.'') s)"
    by (simp add: comp_def)
  have l: "iter_dir h' ?root Left = Some []" and r: "iter_dir h' ?root Right = Some ?rs"
    using h'(2) by (simp_all add: tape_def iter_dir_dpath del: upt_Suc)
  obtain c cs where s: "s = c # cs" using assms by (cases s) auto
  have pl: "plant (cells h' ?root) = (hd s = CHR ''#'')" "plants_of h' ?rs = map (\<lambda>c. c = CHR ''#'') (tl s)"
    using h'(3) unfolding upt by (simp_all add: plants_of_def s del: upt_Suc)
  show ?thesis using h'(1) str l r pl by blast
qed


section \<open>The dictionary built by \<open>Rules.from_lines\<close>\<close>

lemma last_entry_Nil [simp]: "last_entry [] p = None"
  by (simp add: last_entry_def)

lemma last_entry_Cons:
  "last_entry ((k, r) # es) p =
     (case last_entry es p of Some r' \<Rightarrow> Some r' | None \<Rightarrow> if k = p then Some r else None)"
  by (auto simp: last_entry_def split: list.splits)

lemma rule_dict_entries:
  "rule_dict m (map (\<lambda>(k, r). k @ [r]) entries) =
     Inr (\<lambda>p. case last_entry entries p of Some r \<Rightarrow> Some r | None \<Rightarrow> m p)"
proof (induction entries arbitrary: m)
  case Nil
  then show ?case by simp
next
  case (Cons e es)
  obtain k r where e: "e = (k, r)" by (cases e)
  show ?case
    by (auto simp: e Cons.IH last_entry_Cons split: option.splits)
qed

lemma foldl_fromkeys:
  "foldl (\<lambda>m k. m(k \<mapsto> v)) m ks p = (if p \<in> set ks then Some v else m p)"
  by (induction ks arbitrary: m) auto

lemma set_product_lists_bool:
  "set (product_lists (replicate n [False, True])) = {p. length p = n}"
proof (induction n)
  case 0
  then show ?case by simp
next
  case (Suc n)
  show ?case
  proof (rule set_eqI)
    fix p :: "bool list"
    show "p \<in> set (product_lists (replicate (Suc n) [False, True])) \<longleftrightarrow> p \<in> {p. length p = Suc n}"
      using Suc by (cases p) auto
  qed
qed

lemma blank_rules_lookup: "blank_rules p = (if length p = 5 then Some False else None)"
  unfolding blank_rules_def foldl_fromkeys set_product_lists_bool by simp

lemma rule_dict_fails:
  "isl (rule_dict m es) = ([] \<in> set es)"
  by (induction es arbitrary: m) auto

lemma rule_dict_error:
  "rule_dict m es = Inl e \<Longrightarrow> e = ValueError"
  by (induction es arbitrary: m) (auto split: if_splits)


lemma option_case_id: "(case x of None \<Rightarrow> None | Some r \<Rightarrow> Some r) = x"
  by (cases x) simp_all

lemma entries_of_parsed:
  "[] \<notin> set es \<Longrightarrow> map (\<lambda>(k, r). k @ [r]) (map (\<lambda>e. (butlast e, last e)) es) = es"
  by (induction es) auto

lemma rules_from_lines_entries:
  assumes "parsed lines = map (\<lambda>(k, r). k @ [r]) entries"
  shows "rules_from_lines lines = Inr (blank_rules ++ last_entry entries)"
proof -
  have "(\<lambda>p. case last_entry entries p of None \<Rightarrow> None | Some r \<Rightarrow> Some r) = last_entry entries"
    by (rule ext) (simp add: option_case_id)
  then show ?thesis
    by (simp add: rules_from_lines_def assms rule_dict_entries)
qed

lemma parsed_has_empty:
  "([] \<in> set (parsed lines)) = (\<exists>l \<in> set lines. strip l \<noteq> [] \<and> rule_parse l = [])"
  by (auto simp: parsed_def)

lemma parsed_skip_blank:
  "strip l = [] \<Longrightarrow> parsed (xs @ l # ys) = parsed (xs @ ys)"
  by (simp add: parsed_def)

lemma strip_eq_Nil: "(strip s = []) = (\<forall>c \<in> set s. isspace c)"
proof -
  have "(strip s = []) = (\<forall>c \<in> set (dropWhile isspace s). isspace c)"
    by (simp add: strip_def)
  also have "\<dots> = (dropWhile isspace s = [])"
  proof (cases "dropWhile isspace s")
    case Nil
    show ?thesis unfolding Nil by simp
  next
    case (Cons c cs)
    then have "\<not> isspace c" using hd_dropWhile[of isspace s] by simp
    then show ?thesis using Cons by auto
  qed
  also have "\<dots> = (\<forall>c \<in> set s. isspace c)"
    by (rule dropWhile_eq_Nil_conv)
  finally show ?thesis .
qed

lemma plant_char_not_space [simp]: "\<not> isspace (plant_char b)"
  by (simp add: plant_char_def isspace_def)

lemma rule_parse_plant_chars [simp]: "rule_parse (map plant_char bs) = map plant_char bs"
  by (induction bs) (simp_all add: rule_parse_def plant_char_def)

lemma is_hash_plant_chars [simp]: "map (\<lambda>c. c = CHR ''#'') (map plant_char bs) = bs"
  by (induction bs) (simp_all add: plant_char_def)

lemma rule_parse_append: "rule_parse (xs @ ys) = rule_parse xs @ rule_parse ys"
  by (simp add: rule_parse_def)

lemma parsed_entry_lines:
  "parsed (map entry_line entries) = map (\<lambda>(k, r). k @ [r]) entries"
proof -
  have ne: "strip (entry_line e) \<noteq> []" for e
    by (simp add: strip_eq_Nil entry_line_def)
  have rp: "map (\<lambda>c. c = CHR ''#'') (rule_parse (entry_line e)) = fst e @ [snd e]" for e
  proof -
    have a: "rule_parse '' => '' = []" by (simp add: rule_parse_def)
    have b: "rule_parse [plant_char (snd e)] = [plant_char (snd e)]"
      using rule_parse_plant_chars[of "[snd e]"] by simp
    have "rule_parse (entry_line e) = map plant_char (fst e @ [snd e])"
      unfolding entry_line_def rule_parse_append a b by simp
    then show ?thesis by (simp only: is_hash_plant_chars)
  qed
  show ?thesis
    by (simp add: parsed_def ne rp comp_def case_prod_unfold)
qed

section \<open>The score of a tape\<close>

lemma score_dir_pos:
  "sum_list (map fst (filter (\<lambda>(i, p). P p) (map (\<lambda>(k, p). (int k, p)) xs)))
     = sum_list (map (\<lambda>(i, p). int i) (filter (\<lambda>(i, p). P p) xs))"
  by (induction xs) auto

lemma score_dir_neg:
  "sum_list (map fst (filter (\<lambda>(i, p). P p) (map (\<lambda>(k, p). (- int k, p)) xs)))
     = - sum_list (map (\<lambda>(i, p). int i) (filter (\<lambda>(i, p). P p) xs))"
  by (induction xs) auto

lemma score_positions:
  "sum_list (map fst (filter (\<lambda>(i, p). plant (cells h p)) (positions root ls rs)))
     = score_dir h rs - score_dir h ls"
  by (simp add: positions_def score_dir_def score_dir_pos score_dir_neg)

lemma map_fst_positions:
  "map fst (positions root ls rs)
     = map (\<lambda>k. - int k) [1..<1 + length ls] @ [0] @ map int [1..<1 + length rs]"
proof -
  have a: "map fst (map (\<lambda>(k, p). (- int k, p)) (enumerate 1 ls)) = map (\<lambda>k. - int k) (map fst (enumerate 1 ls))"
    by (simp only: map_map comp_def case_prod_unfold fst_conv)
  have b: "map fst (map (\<lambda>(k, p). (int k, p)) (enumerate 1 rs)) = map int (map fst (enumerate 1 rs))"
    by (simp only: map_map comp_def case_prod_unfold fst_conv)
  show ?thesis
    by (simp only: positions_def map_append a b map_fst_enumerate list.map fst_conv)
qed

lemma distinct_positions: "distinct (map fst (positions root ls rs))"
  unfolding map_fst_positions
  by (auto simp: distinct_map inj_on_def)

lemma sum_true_offsets:
  "(\<Sum>i \<in> true_offsets h root ls rs. i)
     = sum_list (map fst (filter (\<lambda>(i, p). plant (cells h p)) (positions root ls rs)))"
proof -
  have "distinct (map fst (filter (\<lambda>(i, p). plant (cells h p)) (positions root ls rs)))"
    using distinct_positions by (rule distinct_map_filter)
  from sum_list_distinct_conv_sum_set[OF this, of "\<lambda>i. i"]
  show ?thesis
    unfolding true_offsets_def by (simp only: list.map_ident)
qed

lemma score_tape:
  "tape h root ls rs \<Longrightarrow> score h root = Some (score_dir h rs - score_dir h ls)"
proof -
  assume "tape h root ls rs"
  then have "iter_dir h root Left = Some ls" "iter_dir h root Right = Some rs"
    by (simp_all add: tape_def iter_dir_dpath)
  then show ?thesis by (simp add: score_def)
qed


section \<open>The heap program computes the step on plants\<close>

lemma total5_lookup:
  "\<lbrakk>total5 m; length s = 5\<rbrakk> \<Longrightarrow> next_plant_state m s = Inr (rule_of m s)"
proof -
  assume t: "total5 m" and l: "length s = 5"
  have "s \<in> set (product_lists (replicate 5 [False, True]))"
    using l by (simp only: set_product_lists_bool mem_Collect_eq)
  with t have "m s \<noteq> None" by (simp add: total5_def list_all_iff)
  then show ?thesis by (auto simp: next_plant_state_def rule_of_def)
qed

lemma length_rot [simp]: "length s = 5 \<Longrightarrow> length (rot d s p) = 5"
  by (cases d) simp_all

lemma plants_of_simps [simp]:
  "plants_of h [] = []"
  "plants_of h (a # as) = plant (cells h a) # plants_of h as"
  by (simp_all add: plants_of_def)

lemma lookahead_next_dpath:
  "dpath h d p (a # as) \<Longrightarrow>
   lookahead_next h (la_of (a # as)) d = (second_plant (plants_of h as), la_of as)"
  by (cases as; cases "tl as") (auto simp: lookahead_next_def la_of_def second_plant_def)

lemma with_potentials_next_real:
  "getattr (cells h p) d = Some a \<Longrightarrow>
   with_potentials_next h (In_iter p) d = Some (Real a, In_iter a)"
  by (simp add: with_potentials_next_def pot_with_potentials_def)

lemma walk_real:
  assumes "dpath h d p as" "distinct (p # as)" "length s = 5" "total5 m"
  shows "walk m d h (In_iter p) (la_of as) s pot0 =
         walk m d (write_plants h as (fst (sweep m d s (plants_of h as))))
           (In_iter (last (p # as))) None (snd (sweep m d s (plants_of h as)))
           (if as = [] then pot0 else Real (last as))"
  using assms
proof (induction as arbitrary: h p s pot0)
  case Nil
  then show ?case by (simp add: la_of_def)
next
  case (Cons a as)
  let ?s' = "rot d s (second_plant (plants_of h as))"
  let ?v = "rule_of m ?s'"
  let ?h' = "set_plant h a ?v"
  have ga: "getattr (cells h p) d = Some a" using Cons.prems(1) by simp
  have lk: "next_plant_state m ?s' = Inr ?v"
    using Cons.prems(3,4) by (simp add: total5_lookup)
  have one: "walk m d h (In_iter p) (la_of (a # as)) s pot0 = walk m d ?h' (In_iter a) (la_of as) ?s' (Real a)"
    by (subst walk.simps)
       (simp add: with_potentials_next_real[OF ga] lookahead_next_dpath[OF Cons.prems(1)] lk Let_def)
  have pl: "plants_of ?h' as = plants_of h as"
    using Cons.prems(2) by simp
  have ih: "walk m d ?h' (In_iter a) (la_of as) ?s' (Real a) =
         walk m d (write_plants ?h' as (fst (sweep m d ?s' (plants_of h as))))
           (In_iter (last (a # as))) None (snd (sweep m d ?s' (plants_of h as)))
           (if as = [] then Real a else Real (last as))"
    using Cons.IH[of ?h' a ?s' "Real a"] Cons.prems by (simp add: pl)
  show ?case
    unfolding one ih by (simp add: split_beta Let_def)
qed

lemma central_dir_dpath:
  "dpath h d root as \<Longrightarrow> central_dir h root d s = (central_plants d s (plants_of h as), la_of as)"
  by (cases as; cases "tl as")
     (auto simp: central_dir_def lookahead_next_def central_plants_def first_plant_def
                 second_plant_def la_of_def)

lemma cells_set_link_other [simp]: "b \<noteq> a \<Longrightarrow> cells (set_link h a d v) b = cells h b"
  by (simp add: set_link_def)

lemma cells_set_plant_other [simp]: "b \<noteq> a \<Longrightarrow> cells (set_plant h a v) b = cells h b"
  by (simp add: set_plant_def)

lemma cells_new_pot_other [simp]: "b \<noteq> fresh h \<Longrightarrow> cells (fst (new_pot h v)) b = cells h b"
  by (simp add: new_pot_def)

lemma potential_set_plant_False:
  "potential_set_plant h (new_potential_pot p d) False = Inr (h, new_potential_pot p d)"
  by (simp add: potential_set_plant_def new_potential_pot_def)

lemma potential_set_plant_True:
  "getattr (cells h p) d = None \<Longrightarrow> p \<noteq> fresh h \<Longrightarrow>
   potential_set_plant h (new_potential_pot p d) True =
     Inr (set_link (set_link (fst (new_pot h True)) p d (Some (fresh h))) (fresh h) (reverse d) (Some p),
          (new_potential_pot p d)\<lparr>linked := Some (fresh h)\<rparr>)"
  by (simp add: potential_set_plant_def new_potential_pot_def append_def split_beta)

lemma with_potentials_next_end:
  "gen_at g p \<Longrightarrow> getattr (cells h p) d = None \<Longrightarrow>
   with_potentials_next h g d =
     Some (Potential (new_potential_pot p d), At_potential (new_potential_pot p d))"
  by (auto simp: gen_at_def with_potentials_next_def pot_with_potentials_def Let_def)

lemma with_potentials_next_unlinked:
  "with_potentials_next h (At_potential (new_potential_pot p d)) d = None"
  by (simp add: with_potentials_next_def new_potential_pot_def)

lemma walk_grow:
  assumes "grow n m d s = Some g" "gen_at gn p" "getattr (cells h p) d = None" "p < fresh h"
    "length s = 5" "total5 m"
  shows "\<exists>h' pp. walk m d h gn None s pot0 = Some (Inr (h', Potential pp))
          \<and> parent pp = last (p # [fresh h..<fresh h + length g])
          \<and> fresh h' = fresh h + length g
          \<and> dpath h' d p [fresh h..<fresh h + length g]
          \<and> plants_of h' [fresh h..<fresh h + length g] = g
          \<and> (\<forall>a. a < fresh h \<and> a \<noteq> p \<longrightarrow> cells h' a = cells h a)
          \<and> plant (cells h' p) = plant (cells h p)
          \<and> getattr (cells h' p) (reverse d) = getattr (cells h p) (reverse d)"
  using assms
proof (induction n arbitrary: h p s gn pot0 g)
  case 0
  then show ?case by simp
next
  case (Suc n)
  let ?s' = "rot d s False"
  let ?pp = "new_potential_pot p d"
  have lk: "next_plant_state m ?s' = Inr (rule_of m ?s')"
    using Suc.prems(5,6) by (simp add: total5_lookup)
  have nx: "with_potentials_next h gn d = Some (Potential ?pp, At_potential ?pp)"
    using Suc.prems(2,3) by (rule with_potentials_next_end)
  show ?case
  proof (cases "rule_of m ?s'")
    case False
    then have g: "g = []" using Suc.prems(1) by (simp add: Let_def)
    have "walk m d h gn None s pot0 = walk m d h (At_potential ?pp) None ?s' (Potential ?pp)"
      by (subst walk.simps)
         (simp add: nx lookahead_next_def lk False potential_set_plant_False)
    also have "\<dots> = Some (Inr (h, Potential ?pp))"
      by (subst walk.simps) (simp add: with_potentials_next_unlinked)
    finally show ?thesis
      using Suc.prems(3) by (simp add: g new_potential_pot_def)
  next
    case True
    then obtain g' where g': "grow n m d ?s' = Some g'" "g = True # g'"
      using Suc.prems(1) by (auto simp: Let_def)
    let ?new = "fresh h"
    let ?h2 = "set_link (set_link (fst (new_pot h True)) p d (Some ?new)) ?new (reverse d) (Some p)"
    let ?pp' = "?pp\<lparr>linked := Some ?new\<rparr>"
    have pn: "p \<noteq> ?new" using Suc.prems(4) by simp
    have one: "walk m d h gn None s pot0 = walk m d ?h2 (At_potential ?pp') None ?s' (Potential ?pp')"
      by (subst walk.simps)
         (simp add: nx lookahead_next_def lk True potential_set_plant_True[OF Suc.prems(3) pn])
    have ga: "gen_at (At_potential ?pp') ?new" by (simp add: gen_at_def)
    have gn: "getattr (cells ?h2 ?new) d = None" using pn by simp
    have fr: "?new < fresh ?h2" by simp
    have ls: "length ?s' = 5" using Suc.prems(5) by simp
    from Suc.IH[OF g'(1) ga gn fr ls Suc.prems(6), of "Potential ?pp'"]
    obtain h' pp where ih:
      "walk m d ?h2 (At_potential ?pp') None ?s' (Potential ?pp') = Some (Inr (h', Potential pp))"
      "parent pp = last (?new # [fresh ?h2..<fresh ?h2 + length g'])"
      "fresh h' = fresh ?h2 + length g'"
      "dpath h' d ?new [fresh ?h2..<fresh ?h2 + length g']"
      "plants_of h' [fresh ?h2..<fresh ?h2 + length g'] = g'"
      "\<forall>a. a < fresh ?h2 \<and> a \<noteq> ?new \<longrightarrow> cells h' a = cells ?h2 a"
      "plant (cells h' ?new) = plant (cells ?h2 ?new)"
      "getattr (cells h' ?new) (reverse d) = getattr (cells ?h2 ?new) (reverse d)"
      by blast
    have f2: "fresh ?h2 = Suc ?new" by simp
    have upt: "[?new..<?new + length g] = ?new # [fresh ?h2..<fresh ?h2 + length g']"
      by (subst upt_rec) (simp add: g'(2))
    have cp: "cells h' p = cells ?h2 p" using ih(6) pn Suc.prems(4) by simp
    have other: "\<And>a. a < fresh h \<Longrightarrow> a \<noteq> p \<Longrightarrow> cells h' a = cells h a"
      using ih(6) by simp
    have "dpath h' d p (?new # [fresh ?h2..<fresh ?h2 + length g'])"
      using ih(4,8) cp pn by simp
    moreover have "plants_of h' (?new # [fresh ?h2..<fresh ?h2 + length g']) = g"
      using ih(5,7) g'(2) by simp
    moreover have "plant (cells h' p) = plant (cells h p)"
      "getattr (cells h' p) (reverse d) = getattr (cells h p) (reverse d)"
      using cp pn by simp_all
    moreover have "parent pp = last (p # ?new # [fresh ?h2..<fresh ?h2 + length g'])"
      using ih(2) by simp
    moreover have "fresh h' = fresh h + length g" using ih(3) g'(2) by simp
    ultimately show ?thesis
      unfolding one upt using ih(1) other by blast
  qed
qed

lemma dpath_snoc:
  "dpath h d p (bs @ [b]) \<Longrightarrow>
   getattr (cells h b) (reverse d) = Some (last (p # bs)) \<and> getattr (cells h b) d = None
   \<and> getattr (cells h (last (p # bs))) d = Some b"
  by (induction bs arbitrary: p) auto

lemma dpath_last: "dpath h d p as \<Longrightarrow> getattr (cells h (last (p # as))) d = None"
  by (induction as arbitrary: p) auto

lemma dpath_detach_last:
  "\<lbrakk>dpath h d p (bs @ [b]); distinct (p # bs @ [b])\<rbrakk> \<Longrightarrow>
   dpath (set_link (set_link h b (reverse d) None) (last (p # bs)) d None) d p bs"
proof (induction bs arbitrary: p)
  case Nil
  then show ?case by simp
next
  case (Cons c cs)
  have "dpath (set_link (set_link h b (reverse d) None) (last (c # cs)) d None) d c cs"
    using Cons.IH[of c] Cons.prems by simp
  moreover have "p \<noteq> last (c # cs)" "p \<noteq> b" "c \<noteq> b"
    using Cons.prems(2) last_in_set[of "c # cs"] by auto
  ultimately show ?case using Cons.prems(1) by simp
qed

lemma dpath_append:
  "\<lbrakk>dpath h d p as; distinct (p # as);
    \<forall>a \<in> set (butlast (p # as)). cells h' a = cells h a;
    getattr (cells h' (last (p # as))) (reverse d) = getattr (cells h (last (p # as))) (reverse d);
    dpath h' d (last (p # as)) news\<rbrakk>
   \<Longrightarrow> dpath h' d p (as @ news)"
proof (induction as arbitrary: p)
  case Nil
  then show ?case by simp
next
  case (Cons a as)
  have "dpath h' d a (as @ news)"
    using Cons.IH[of a] Cons.prems by (auto split: if_splits)
  moreover have "getattr (cells h' a) (reverse d) = Some p"
    using Cons.prems by (cases "as = []") auto
  ultimately show ?case using Cons.prems by simp
qed

lemma dpath_frame:
  "\<lbrakk>dpath h d p as; getattr (cells h' p) d = getattr (cells h p) d;
    \<forall>a \<in> set as. cells h' a = cells h a\<rbrakk> \<Longrightarrow> dpath h' d p as"
  by (induction as arbitrary: p) auto

lemma trimmed_snoc [simp]:
  "trimmed (xs @ [x]) = (if x then xs @ [x] else trimmed xs)"
  by (simp add: trimmed_def)

lemma trimmed_Nil [simp]: "trimmed [] = []"
  by (simp add: trimmed_def)

lemma length_trimmed: "length (trimmed xs) \<le> length xs"
  by (induction xs rule: rev_induct) (auto intro: le_SucI)

lemma take_trimmed: "take (length (trimmed xs)) xs = trimmed xs"
  using length_trimmed by (induction xs rule: rev_induct) auto

lemma plants_of_append [simp]: "plants_of h (as @ bs) = plants_of h as @ plants_of h bs"
  by (simp add: plants_of_def)

lemma length_plants_of [simp]: "length (plants_of h as) = length as"
  by (simp add: plants_of_def)

lemma trim_dpath:
  assumes "dpath h d root as" "distinct (root # as)"
  shows "\<exists>h'. trim h root (reverse d) (last (root # as)) = Some (Inr h')
          \<and> dpath h' d root (take (length (trimmed (plants_of h as))) as)
          \<and> (\<forall>a. plant (cells h' a) = plant (cells h a))
          \<and> fresh h' = fresh h
          \<and> (\<forall>a. a \<notin> set (root # as) \<longrightarrow> cells h' a = cells h a)
          \<and> getattr (cells h' root) (reverse d) = getattr (cells h root) (reverse d)"
  using assms
proof (induction as arbitrary: h rule: rev_induct)
  case Nil
  have "trim h root (reverse d) root = Some (Inr h)"
    by (subst trim.simps) simp
  then show ?case using Nil by simp
next
  case (snoc b bs)
  have br: "b \<noteq> root" using snoc.prems(2) by auto
  show ?case
  proof (cases "plant (cells h b)")
    case True
    have "trim h root (reverse d) b = Some (Inr h)"
      by (subst trim.simps) (simp add: True)
    then show ?thesis using snoc.prems True by simp
  next
    case False
    let ?prev = "last (root # bs)"
    let ?h2 = "set_link (set_link h b (reverse d) None) ?prev d None"
    from dpath_snoc[OF snoc.prems(1)]
    have bk: "getattr (cells h b) (reverse d) = Some ?prev" by simp
    have one: "trim h root (reverse d) b = trim ?h2 root (reverse d) ?prev"
      by (subst trim.simps) (simp add: False br detach_def bk)
    have dp2: "dpath ?h2 d root bs"
      using dpath_detach_last[OF snoc.prems] .
    have di2: "distinct (root # bs)" using snoc.prems(2) by simp
    from snoc.IH[OF dp2 di2] obtain h' where ih:
      "trim ?h2 root (reverse d) ?prev = Some (Inr h')"
      "dpath h' d root (take (length (trimmed (plants_of ?h2 bs))) bs)"
      "\<forall>a. plant (cells h' a) = plant (cells ?h2 a)"
      "fresh h' = fresh ?h2"
      "\<forall>a. a \<notin> set (root # bs) \<longrightarrow> cells h' a = cells ?h2 a"
      "getattr (cells h' root) (reverse d) = getattr (cells ?h2 root) (reverse d)"
      by blast
    have prev_in: "?prev \<in> set (root # bs)" by (rule last_in_set) simp
    have le: "length (trimmed (plants_of h bs)) \<le> length bs"
      using length_trimmed[of "plants_of h bs"] by simp
    have "dpath h' d root (take (length (trimmed (plants_of h (bs @ [b])))) (bs @ [b]))"
      using ih(2) False le by simp
    moreover have "\<forall>a. plant (cells h' a) = plant (cells h a)"
      using ih(3) by simp
    moreover have "\<forall>a. a \<notin> set (root # bs @ [b]) \<longrightarrow> cells h' a = cells h a"
    proof (intro allI impI)
      fix a assume "a \<notin> set (root # bs @ [b])"
      then have a: "a \<notin> set (root # bs)" "a \<noteq> b" by auto
      with prev_in have ap: "a \<noteq> ?prev" by blast
      have "cells h' a = cells ?h2 a" using ih(5) a(1) by blast
      also have "\<dots> = cells h a" using ap a(2) by (simp del: last.simps)
      finally show "cells h' a = cells h a" .
    qed
    moreover have "getattr (cells h' root) (reverse d) = getattr (cells h root) (reverse d)"
      using ih(6) br by simp
    ultimately show ?thesis
      using ih(1,4) one by simp
  qed
qed

lemma getattr_write_plants [simp]:
  "getattr (cells (write_plants h as vs) b) d = getattr (cells h b) d"
  by (induction h as vs rule: write_plants.induct) simp_all

lemma fresh_write_plants [simp]: "fresh (write_plants h as vs) = fresh h"
  by (induction h as vs rule: write_plants.induct) simp_all

lemma dpath_write_plants [simp]: "dpath (write_plants h as vs) d p bs = dpath h d p bs"
  by (induction bs arbitrary: p) simp_all

lemma cells_write_plants_other:
  "b \<notin> set as \<Longrightarrow> cells (write_plants h as vs) b = cells h b"
  by (induction h as vs rule: write_plants.induct) simp_all

lemma plants_of_write_plants:
  "\<lbrakk>distinct as; length vs = length as\<rbrakk> \<Longrightarrow> plants_of (write_plants h as vs) as = vs"
proof (induction h as vs rule: write_plants.induct)
  case (1 h a as v vs)
  then show ?case by (simp add: cells_write_plants_other)
qed simp_all

lemma length_sweep [simp]: "length (fst (sweep m d s xs)) = length xs"
  by (induction xs arbitrary: s) (simp_all add: split_beta Let_def)

lemma length_sweep_state [simp]: "length s = 5 \<Longrightarrow> length (snd (sweep m d s xs)) = 5"
  by (induction xs arbitrary: s) (simp_all add: split_beta Let_def)

lemma last_append_upt:
  "last (last (p # as) # news) = last (p # as @ news)"
  by (cases news) simp_all

lemma plants_of_cong:
  "\<forall>a \<in> set as. plant (cells h' a) = plant (cells h a) \<Longrightarrow> plants_of h' as = plants_of h as"
  by (simp add: plants_of_def)

lemma apply_dir_correct:
  assumes dp: "dpath h d root as" and di: "distinct (root # as)"
    and fr: "\<forall>a \<in> set (root # as). a < fresh h" and ls: "length s = 5" and tot: "total5 m"
    and pd: "plants_dir n m d s (plants_of h as) = Some vs"
  shows "\<exists>h' as'. apply_dir m d h root (la_of as) s = Some (Inr h')
          \<and> dpath h' d root as' \<and> plants_of h' as' = vs \<and> distinct (root # as')
          \<and> (\<forall>a \<in> set as'. a < fresh h') \<and> fresh h \<le> fresh h'
          \<and> set as' \<subseteq> set as \<union> {fresh h..<fresh h'}
          \<and> (\<forall>a. a < fresh h \<and> a \<notin> set (root # as) \<longrightarrow> cells h' a = cells h a)
          \<and> plant (cells h' root) = plant (cells h root)
          \<and> getattr (cells h' root) (reverse d) = getattr (cells h root) (reverse d)"
proof -
  define vs0 where "vs0 = fst (sweep m d s (plants_of h as))"
  define sf where "sf = snd (sweep m d s (plants_of h as))"
  obtain g where g: "grow n m d sf = Some g" and vs: "vs = trimmed (vs0 @ g)"
    using pd by (auto simp: plants_dir_def split_beta vs0_def sf_def)
  define h1 where "h1 = write_plants h as vs0"
  define p where "p = last (root # as)"
  define news where "news = [fresh h..<fresh h + length g]"
  have p_in: "p \<in> set (root # as)" unfolding p_def by (rule last_in_set) simp
  have w1: "walk m d h (In_iter root) (la_of as) s (Real root) =
            walk m d h1 (In_iter p) None sf (if as = [] then Real root else Real (last as))"
    unfolding h1_def p_def vs0_def sf_def by (rule walk_real[OF dp di ls tot])
  have dp1: "dpath h1 d root as" using dp by (simp add: h1_def)
  have pend: "getattr (cells h1 p) d = None"
    using dpath_last[OF dp1] by (simp add: p_def)
  have pfr: "p < fresh h1" using fr p_in by (simp add: h1_def del: set_simps)
  have lsf: "length sf = 5" using ls by (simp add: sf_def)
  have gat: "gen_at (In_iter p) p" by (simp add: gen_at_def)
  from walk_grow[OF g gat pend pfr lsf tot, of "if as = [] then Real root else Real (last as)"]
  obtain h2 pp where w2:
    "walk m d h1 (In_iter p) None sf (if as = [] then Real root else Real (last as))
       = Some (Inr (h2, Potential pp))"
    "parent pp = last (p # news)"
    "fresh h2 = fresh h + length g"
    "dpath h2 d p news"
    "plants_of h2 news = g"
    "\<forall>a. a < fresh h \<and> a \<noteq> p \<longrightarrow> cells h2 a = cells h1 a"
    "plant (cells h2 p) = plant (cells h1 p)"
    "getattr (cells h2 p) (reverse d) = getattr (cells h1 p) (reverse d)"
    unfolding news_def by (auto simp: h1_def)
  have ad: "apply_dir m d h root (la_of as) s = trim h2 root (reverse d) (last (p # news))"
    by (simp add: apply_dir_def w1 w2(1,2))
  have but: "\<forall>a \<in> set (butlast (root # as)). cells h2 a = cells h1 a"
  proof
    fix a assume a: "a \<in> set (butlast (root # as))"
    then have "a \<in> set (root # as)" by (rule in_set_butlastD)
    then have "a < fresh h" using fr by blast
    moreover have "a \<noteq> p"
      using a last_notin_butlast[OF di] unfolding p_def by auto
    ultimately show "cells h2 a = cells h1 a" using w2(6) by blast
  qed
  have dp2: "dpath h2 d root (as @ news)"
    using dpath_append[OF dp1 di but] w2(8,4) unfolding p_def by blast
  have news_ge: "\<forall>a \<in> set news. fresh h \<le> a \<and> a < fresh h2"
    by (auto simp: news_def w2(3))
  have di2: "distinct (root # as @ news)"
    using di fr news_ge by (auto simp: news_def)
  have lst: "last (p # news) = last (root # as @ news)"
    unfolding p_def by (rule last_append_upt)
  from trim_dpath[OF dp2 di2] obtain h3 where t3:
    "trim h2 root (reverse d) (last (root # as @ news)) = Some (Inr h3)"
    "dpath h3 d root (take (length (trimmed (plants_of h2 (as @ news)))) (as @ news))"
    "\<forall>a. plant (cells h3 a) = plant (cells h2 a)"
    "fresh h3 = fresh h2"
    "\<forall>a. a \<notin> set (root # as @ news) \<longrightarrow> cells h3 a = cells h2 a"
    "getattr (cells h3 root) (reverse d) = getattr (cells h2 root) (reverse d)"
    by blast
  have pl21: "plant (cells h2 a) = plant (cells h1 a)" if "a \<in> set (root # as)" for a
  proof (cases "a = p")
    case True then show ?thesis using w2(7) by simp
  next
    case False
    moreover have "a < fresh h" using that fr by blast
    ultimately show ?thesis using w2(6) by simp
  qed
  have "plants_of h2 as = plants_of h1 as"
    by (rule plants_of_cong) (use pl21 in auto)
  also have "\<dots> = vs0"
    unfolding h1_def using di by (intro plants_of_write_plants) (simp_all add: vs0_def)
  finally have pl2: "plants_of h2 (as @ news) = vs0 @ g"
    using w2(5) by simp
  define as' where "as' = take (length (trimmed (vs0 @ g))) (as @ news)"
  have dp3: "dpath h3 d root as'" using t3(2) unfolding pl2 as'_def .
  have "plants_of h3 as' = plants_of h2 as'"
    by (rule plants_of_cong) (use t3(3) in auto)
  also have "\<dots> = take (length (trimmed (vs0 @ g))) (plants_of h2 (as @ news))"
    by (simp add: as'_def plants_of_def take_map)
  also have "\<dots> = vs" unfolding pl2 vs by (rule take_trimmed)
  finally have pl3: "plants_of h3 as' = vs" .
  have sub: "set as' \<subseteq> set (as @ news)" unfolding as'_def by (rule set_take_subset)
  have "distinct (as @ news)" "root \<notin> set (as @ news)" using di2 by simp_all
  then have "distinct as'" "root \<notin> set as'"
    using sub unfolding as'_def by (blast intro: distinct_take)+
  then have di3: "distinct (root # as')" by simp
  have f3: "fresh h3 = fresh h + length g" by (simp add: t3(4) w2(3))
  have fr3: "\<forall>a \<in> set as'. a < fresh h3"
  proof
    fix a assume "a \<in> set as'"
    then have "a \<in> set as \<or> a \<in> set news" using sub by auto
    then show "a < fresh h3"
    proof
      assume "a \<in> set as"
      then have "a < fresh h" using fr by simp
      then show ?thesis unfolding f3 by simp
    next
      assume "a \<in> set news"
      then show ?thesis using news_ge by (simp add: t3(4))
    qed
  qed
  have sub': "set as' \<subseteq> set as \<union> {fresh h..<fresh h3}"
  proof
    fix a assume "a \<in> set as'"
    then have "a \<in> set as \<or> a \<in> set news" using sub by auto
    then show "a \<in> set as \<union> {fresh h..<fresh h3}"
      using news_ge by (auto simp: t3(4))
  qed
  have frame: "cells h3 a = cells h a" if "a < fresh h" "a \<notin> set (root # as)" for a
  proof -
    have "a \<notin> set news" using that(1) news_ge by auto
    then have "cells h3 a = cells h2 a" using t3(5) that(2) by auto
    also have "\<dots> = cells h1 a" using w2(6) that p_in by blast
    also have "\<dots> = cells h a" unfolding h1_def using that(2) by (simp add: cells_write_plants_other)
    finally show ?thesis .
  qed
  have rootpl: "plant (cells h3 root) = plant (cells h root)"
    using t3(3) pl21[of root] di by (simp add: h1_def cells_write_plants_other)
  have rootrev: "getattr (cells h3 root) (reverse d) = getattr (cells h root) (reverse d)"
  proof (cases "root = p")
    case True
    then show ?thesis using t3(6) w2(8) by (simp add: h1_def)
  next
    case False
    then have "cells h2 root = cells h1 root" using w2(6) fr by simp
    then show ?thesis using t3(6) by (simp add: h1_def)
  qed
  show ?thesis
    using ad lst t3(1,4) dp3 pl3 di3 fr3 sub' frame rootpl rootrev w2(3)
    by (intro exI[of _ h3] exI[of _ as']) simp
qed

lemma length_central_plants:
  "length (central_plants Right (central_plants Left [c] xs) ys) = 5"
  by (simp add: central_plants_def)

lemma rules_apply_correct:
  assumes tp: "tape h root ls rs" and tot: "total5 m"
    and ps: "plants_step n m (plants_of h ls, plant (cells h root), plants_of h rs) = Some (ls', c', rs')"
  shows "\<exists>h' as bs. rules_apply m h root = Some (Inr h') \<and> tape h' root as bs
          \<and> plants_of h' as = ls' \<and> plant (cells h' root) = c' \<and> plants_of h' bs = rs'"
proof -
  have dl: "dpath h Left root ls" and dr: "dpath h Right root rs"
    and di: "distinct (root # ls @ rs)" and fr: "\<forall>a \<in> set (root # ls @ rs). a < fresh h"
    using tp by (simp_all add: tape_def)
  define cs where "cs = central_plants Right (central_plants Left [plant (cells h root)] (plants_of h ls)) (plants_of h rs)"
  have lcs: "length cs = 5" unfolding cs_def by (rule length_central_plants)
  have c': "c' = rule_of m cs"
    and pl: "plants_dir n m Left cs (plants_of h ls) = Some ls'"
    and pr: "plants_dir n m Right cs (plants_of h rs) = Some rs'"
    using ps by (auto simp: plants_step_def cs_def Let_def split: option.splits)
  define h0 where "h0 = set_plant h root c'"
  have lk: "next_plant_state m cs = Inr c'"
    using tot lcs by (simp add: total5_lookup c')
  have ra: "rules_apply m h root =
      (case apply_dir m Left h0 root (la_of ls) cs of
         None \<Rightarrow> None
       | Some (Inl e) \<Rightarrow> Some (Inl e)
       | Some (Inr h1) \<Rightarrow> apply_dir m Right h1 root (la_of rs) cs)"
    unfolding cs_def
    by (simp add: rules_apply_def central_dir_dpath[OF dl] central_dir_dpath[OF dr]
          lk[unfolded cs_def] h0_def Let_def)
  have dl0: "dpath h0 Left root ls" using dl by (simp add: h0_def)
  have dil: "distinct (root # ls)" using di by simp
  have frl: "\<forall>a \<in> set (root # ls). a < fresh h0" using fr by (simp add: h0_def)
  have pl0: "plants_dir n m Left cs (plants_of h0 ls) = Some ls'"
    using pl di by (simp add: h0_def)
  from apply_dir_correct[OF dl0 dil frl lcs tot pl0] obtain h1 as where l1:
    "apply_dir m Left h0 root (la_of ls) cs = Some (Inr h1)"
    "dpath h1 Left root as" "plants_of h1 as = ls'" "distinct (root # as)"
    "\<forall>a \<in> set as. a < fresh h1" "fresh h0 \<le> fresh h1"
    "set as \<subseteq> set ls \<union> {fresh h0..<fresh h1}"
    "\<forall>a. a < fresh h0 \<and> a \<notin> set (root # ls) \<longrightarrow> cells h1 a = cells h0 a"
    "plant (cells h1 root) = plant (cells h0 root)"
    "getattr (cells h1 root) (reverse Left) = getattr (cells h0 root) (reverse Left)"
    by blast
  have f0: "fresh h0 = fresh h" by (simp add: h0_def)
  have rs1: "cells h1 a = cells h a" if "a \<in> set rs" for a
  proof -
    have "a < fresh h0" "a \<notin> set (root # ls)" using that fr di by (auto simp: f0)
    then have "cells h1 a = cells h0 a" using l1(8) by blast
    moreover have "a \<noteq> root" using that di by auto
    ultimately show ?thesis by (simp add: h0_def)
  qed
  have dr1: "dpath h1 Right root rs"
  proof (rule dpath_frame[OF dr])
    show "getattr (cells h1 root) Right = getattr (cells h root) Right"
      using l1(10) by (simp add: h0_def)
    show "\<forall>a \<in> set rs. cells h1 a = cells h a" using rs1 by blast
  qed
  have dir: "distinct (root # rs)" using di by simp
  have frr: "\<forall>a \<in> set (root # rs). a < fresh h1"
  proof
    fix a assume "a \<in> set (root # rs)"
    then have "a < fresh h" using fr by auto
    then show "a < fresh h1" using l1(6) f0 by linarith
  qed
  have "plants_of h1 rs = plants_of h rs"
    by (rule plants_of_cong) (simp add: rs1)
  then have pr1: "plants_dir n m Right cs (plants_of h1 rs) = Some rs'" using pr by simp
  from apply_dir_correct[OF dr1 dir frr lcs tot pr1] obtain h2 bs where r2:
    "apply_dir m Right h1 root (la_of rs) cs = Some (Inr h2)"
    "dpath h2 Right root bs" "plants_of h2 bs = rs'" "distinct (root # bs)"
    "\<forall>a \<in> set bs. a < fresh h2" "fresh h1 \<le> fresh h2"
    "set bs \<subseteq> set rs \<union> {fresh h1..<fresh h2}"
    "\<forall>a. a < fresh h1 \<and> a \<notin> set (root # rs) \<longrightarrow> cells h2 a = cells h1 a"
    "plant (cells h2 root) = plant (cells h1 root)"
    "getattr (cells h2 root) (reverse Right) = getattr (cells h1 root) (reverse Right)"
    by blast
  have as_rs: "set as \<inter> set rs = {}"
  proof -
    have "a \<notin> set rs" if "a \<in> set as" for a
    proof -
      from that l1(7) have "a \<in> set ls \<or> fresh h \<le> a" by (auto simp: f0)
      then show ?thesis
      proof
        assume "a \<in> set ls" then show ?thesis using di by auto
      next
        assume ge: "fresh h \<le> a"
        show ?thesis
        proof
          assume "a \<in> set rs"
          then have "a < fresh h" using fr by simp
          then show False using ge by simp
        qed
      qed
    qed
    then show ?thesis by blast
  qed
  have as2: "cells h2 a = cells h1 a" if "a \<in> set as" for a
  proof -
    have "a < fresh h1" using that l1(5) by blast
    moreover have "a \<notin> set (root # rs)" using that as_rs l1(4) by auto
    ultimately show ?thesis using r2(8) by blast
  qed
  have dl2: "dpath h2 Left root as"
  proof (rule dpath_frame[OF l1(2)])
    show "getattr (cells h2 root) Left = getattr (cells h1 root) Left"
      using r2(10) by simp
    show "\<forall>a \<in> set as. cells h2 a = cells h1 a" using as2 by blast
  qed
  have pl2: "plants_of h2 as = ls'"
    using l1(3) plants_of_cong[of as h2 h1] as2 by simp
  have as_bs: "set as \<inter> set bs = {}"
  proof -
    have "a \<notin> set bs" if "a \<in> set as" for a
    proof
      assume "a \<in> set bs"
      with r2(7) have "a \<in> set rs \<or> fresh h1 \<le> a" by auto
      then show False
      proof
        assume "a \<in> set rs" then show False using that as_rs by blast
      next
        assume "fresh h1 \<le> a"
        moreover have "a < fresh h1" using that l1(5) by blast
        ultimately show False by simp
      qed
    qed
    then show ?thesis by blast
  qed
  have di2: "distinct (root # as @ bs)"
    using l1(4) r2(4) as_bs by auto
  have fr2: "\<forall>a \<in> set (root # as @ bs). a < fresh h2"
  proof
    fix a assume "a \<in> set (root # as @ bs)"
    then consider "a = root" | "a \<in> set as" | "a \<in> set bs" by auto
    then show "a < fresh h2"
    proof cases
      case 1
      then have "a < fresh h" using fr by simp
      then show ?thesis using l1(6) r2(6) f0 by linarith
    next
      case 2
      then have "a < fresh h1" using l1(5) by blast
      then show ?thesis using r2(6) by linarith
    next
      case 3
      then show ?thesis using r2(5) by blast
    qed
  qed
  have "tape h2 root as bs"
    unfolding tape_def using dl2 r2(2) di2 fr2 by blast
  moreover have "plant (cells h2 root) = c'"
    using r2(9) l1(9) by (simp add: h0_def)
  moreover have "rules_apply m h root = Some (Inr h2)"
    by (simp add: ra l1(1) r2(1))
  ultimately show ?thesis using pl2 r2(3) by blast
qed

lemma steps_correct:
  assumes "tape h root ls rs" "total5 m"
    "plants_steps k n m (plants_of h ls, plant (cells h root), plants_of h rs) = Some (ls', c', rs')"
  shows "\<exists>h' as bs. steps k m root h = Some (Inr h') \<and> tape h' root as bs
          \<and> plants_of h' as = ls' \<and> plant (cells h' root) = c' \<and> plants_of h' bs = rs'"
  using assms
proof (induction k arbitrary: h ls rs)
  case 0
  then show ?case by auto
next
  case (Suc k)
  from Suc.prems(3) obtain ls1 c1 rs1 where
    s1: "plants_step n m (plants_of h ls, plant (cells h root), plants_of h rs) = Some (ls1, c1, rs1)"
    and sk: "plants_steps k n m (ls1, c1, rs1) = Some (ls', c', rs')"
    by (auto split: option.splits)
  from rules_apply_correct[OF Suc.prems(1,2) s1] obtain h1 as bs where h1:
    "rules_apply m h root = Some (Inr h1)" "tape h1 root as bs"
    "plants_of h1 as = ls1" "plant (cells h1 root) = c1" "plants_of h1 bs = rs1"
    by blast
  from Suc.IH[OF h1(2) Suc.prems(2)] sk h1(3,4,5)
  show ?case by (simp add: step_def h1(1))
qed

lemma score_dir_plants:
  "score_dir h as = sum_list (map (\<lambda>(i, b). int i) (filter snd (enumerate 1 (plants_of h as))))"
proof -
  have "sum_list (map (\<lambda>(i, p). int i) (filter (\<lambda>(i, p). plant (cells h p)) (enumerate n as)))
      = sum_list (map (\<lambda>(i, b). int i) (filter snd (enumerate n (plants_of h as))))" for n
    by (induction as arbitrary: n) simp_all
  then show ?thesis by (simp add: score_dir_def)
qed

lemma score_plants:
  "tape h root ls rs \<Longrightarrow>
   score h root = Some (plants_score (plants_of h ls, plant (cells h root), plants_of h rs))"
  using score_tape[of h root ls rs] by (simp add: plants_score_def score_dir_plants)

section \<open>Loaded tapes and constant tables\<close>


lemma rules_from_lines_total5: "rules_from_lines lines = Inr m \<Longrightarrow> total5 m"
  by (auto simp: rules_from_lines_def total5_def list_all_iff set_product_lists_bool
        map_add_def blank_rules_lookup split: sum.splits option.splits)

lemma testplants_initial:
  "strip (partition_last ''initial state:'' (hd testplants_lines)) = ''#..#.#..##......###...###''"
  by (simp add: testplants_lines_def strip_def isspace_def)

lemma testplants_plants:
  "(case rules_from_lines (tl testplants_lines) of
      Inl e \<Rightarrow> None
    | Inr m \<Rightarrow>
        map_option plants_score
          (plants_steps 20 3 m
             ([], True, map (\<lambda>c. c = CHR ''#'') ''..#.#..##......###...###''))) = Some 325"
  by code_simp


lemma from_initial_tape:
  assumes "s \<noteq> []" "from_initial h0 s = Inr (h, root)"
  shows "\<exists>rs. tape h root [] rs \<and> plant (cells h root) = (hd s = CHR ''#'')
           \<and> plants_of h rs = map (\<lambda>c. c = CHR ''#'') (tl s)"
proof -
  let ?root = "Suc (fresh h0)"
  let ?rs = "[Suc ?root..<?root + length s]"
  from from_initial_ok[OF assms(1), of h0] assms(2) have
    h: "root = ?root" "tape h ?root [] ?rs"
        "plants_of h [?root..<?root + length s] = map (\<lambda>c. c = CHR ''#'') s"
    by auto
  have upt: "[?root..<?root + length s] = ?root # ?rs"
    using assms(1) by (subst upt_rec) simp
  obtain c cs where s: "s = c # cs" using assms(1) by (cases s) auto
  have "plant (cells h ?root) = (hd s = CHR ''#'')" "plants_of h ?rs = map (\<lambda>c. c = CHR ''#'') (tl s)"
    using h(3) unfolding upt by (simp_all add: s del: upt_Suc)
  then show ?thesis using h(1,2) by blast
qed


lemma all_false_rule_of: "\<lbrakk>all_false m; length s = 5\<rbrakk> \<Longrightarrow> \<not> rule_of m s"
proof -
  assume a: "all_false m" and l: "length s = 5"
  have "s \<in> set (product_lists (replicate 5 [False, True]))"
    using l by (simp only: set_product_lists_bool mem_Collect_eq)
  with a have "m s = Some False" by (simp add: all_false_def list_all_iff)
  then show ?thesis by (simp add: rule_of_def)
qed

lemma all_false_total5: "all_false m \<Longrightarrow> total5 m"
  by (auto simp: all_false_def total5_def list_all_iff)

lemma sweep_all_false:
  "\<lbrakk>all_false m; length s = 5\<rbrakk> \<Longrightarrow> fst (sweep m d s xs) = replicate (length xs) False"
  by (induction xs arbitrary: s) (simp_all add: split_beta Let_def all_false_rule_of)

lemma trimmed_replicate_False: "trimmed (replicate k False) = []"
  by (simp add: trimmed_def dropWhile_eq_Nil_conv)

lemma plants_dir_all_false:
  "\<lbrakk>all_false m; length s = 5\<rbrakk> \<Longrightarrow> plants_dir (Suc k) m d s xs = Some []"
proof -
  assume a: "all_false m" and l: "length s = 5"
  have "\<not> rule_of m (rot d (snd (sweep m d s xs)) False)"
    using a l by (simp add: all_false_rule_of)
  then show ?thesis
    using sweep_all_false[OF a l, of d xs]
    by (simp add: plants_dir_def split_beta Let_def trimmed_replicate_False)
qed

lemma plants_step_all_false:
  "all_false m \<Longrightarrow> plants_step (Suc k) m t = Some ([], False, [])"
  by (cases t)
     (simp add: plants_step_def Let_def plants_dir_all_false length_central_plants
        all_false_rule_of)

lemma plants_steps_all_false:
  "\<lbrakk>all_false m; 0 < n\<rbrakk> \<Longrightarrow> plants_steps n (Suc k) m t = Some ([], False, [])"
proof (induction n arbitrary: t)
  case 0
  then show ?case by simp
next
  case (Suc n)
  show ?case
  proof (cases n)
    case 0
    then show ?thesis using Suc.prems(1) by (simp add: plants_step_all_false)
  next
    case (Suc j)
    then show ?thesis using Suc.IH[OF Suc.prems(1)] Suc.prems(1)
      by (simp add: plants_step_all_false)
  qed
qed

lemma from_initial_nonempty: "from_initial h0 s = Inr r \<Longrightarrow> s \<noteq> []"
  by (auto simp: from_initial_def new_pot_def)

section \<open>Sequences of link operations\<close>

lemma dpath_end_unique:
  "\<lbrakk>dpath h d c as; p \<in> set (c # as); getattr (cells h p) d = None\<rbrakk> \<Longrightarrow> p = last (c # as)"
  by (induction as arbitrary: c) auto

lemma dpath_back_some:
  "\<lbrakk>dpath h d c as; p \<in> set as\<rbrakk> \<Longrightarrow> getattr (cells h p) (reverse d) \<noteq> None"
  by (induction as arbitrary: c) auto

lemma dpath_suffix:
  "dpath h d c (as @ b # bs) \<Longrightarrow> dpath h d b bs"
  by (induction as arbitrary: c) auto

lemma dpath_pred:
  "dpath h d c (as @ b # bs) \<Longrightarrow>
   getattr (cells h b) (reverse d) = Some (last (c # as)) \<and> getattr (cells h (last (c # as))) d = Some b"
  by (induction as arbitrary: c) auto

lemma dpath_cut:
  "\<lbrakk>dpath h d c (as @ b # bs); distinct (c # as @ b # bs)\<rbrakk> \<Longrightarrow>
   dpath (set_link (set_link h (last (c # as)) d None) b (reverse d) None) d c as"
proof (induction as arbitrary: c)
  case Nil
  then show ?case by simp
next
  case (Cons a as)
  have "dpath (set_link (set_link h (last (a # as)) d None) b (reverse d) None) d a as"
    using Cons.IH[of a] Cons.prems by simp
  moreover have "c \<noteq> last (a # as)" "c \<noteq> b" "a \<noteq> b"
    using Cons.prems(2) last_in_set[of "a # as"] by auto
  ultimately show ?case using Cons.prems(1) by simp
qed

lemma chain_Cons:
  "chain h (c # cs) =
     (getattr (cells h c) Left = None \<and> dpath h Right c cs \<and> distinct (c # cs)
      \<and> (\<forall>a \<in> set (c # cs). a < fresh h))"
  by (simp add: chain_def)

lemma chain_not_Nil: "chain h cs \<Longrightarrow> cs \<noteq> []"
  by (auto simp: chain_def)

lemma dpath_split_at:
  "\<lbrakk>dpath h d c cs; p \<in> set (c # cs); getattr (cells h p) d = Some n\<rbrakk> \<Longrightarrow>
   \<exists>as bs. cs = as @ n # bs \<and> last (c # as) = p"
proof (induction cs arbitrary: c)
  case Nil
  then show ?case by simp
next
  case (Cons a cs)
  show ?case
  proof (cases "p = c")
    case True
    then have "a = n" using Cons.prems by simp
    then show ?thesis using True by (intro exI[of _ "[]"] exI[of _ cs]) simp
  next
    case False
    then have "p \<in> set (a # cs)" using Cons.prems(2) by simp
    from Cons.IH[OF _ this Cons.prems(3)] Cons.prems(1)
    obtain as bs where "cs = as @ n # bs" "last (a # as) = p" by auto
    then show ?thesis by (intro exI[of _ "a # as"] exI[of _ bs]) simp
  qed
qed

lemma dpath_rev_prefix:
  "\<lbrakk>dpath h (reverse d) c pre; dpath h d c (as @ a # bs)\<rbrakk> \<Longrightarrow>
   dpath h (reverse d) a (rev as @ c # pre)"
proof (induction as arbitrary: c pre)
  case Nil
  then show ?case by simp
next
  case (Cons x as)
  have "dpath h (reverse d) x (c # pre)" using Cons.prems by simp
  moreover have "dpath h d x (as @ a # bs)" using Cons.prems(2) by simp
  ultimately show ?case using Cons.IH[of x "c # pre"] by simp
qed

lemma chain_frame:
  "\<lbrakk>chain h cs; \<forall>a \<in> set cs. cells h' a = cells h a; fresh h \<le> fresh h'\<rbrakk> \<Longrightarrow> chain h' cs"
proof -
  assume ch: "chain h cs" and fr: "\<forall>a \<in> set cs. cells h' a = cells h a" and le: "fresh h \<le> fresh h'"
  obtain c0 cs' where cs: "cs = c0 # cs'" using chain_not_Nil[OF ch] by (cases cs) auto
  have c: "getattr (cells h c0) Left = None" "dpath h Right c0 cs'" "distinct (c0 # cs')"
    "\<forall>a \<in> set (c0 # cs'). a < fresh h"
    using ch unfolding cs chain_Cons by simp_all
  have "dpath h' Right c0 cs'"
    by (rule dpath_frame[OF c(2)]) (use fr cs in auto)
  moreover have "\<forall>a \<in> set (c0 # cs'). a < fresh h'"
  proof
    fix a assume "a \<in> set (c0 # cs')"
    then have "a < fresh h" using c(4) by blast
    then show "a < fresh h'" using le by linarith
  qed
  ultimately show ?thesis using c(1,3) fr unfolding cs chain_Cons by simp
qed

lemma chain_symmetric:
  assumes ch: "chain h cs" and a: "a \<in> set cs" and g: "getattr (cells h a) d = Some b"
  shows "b \<in> set cs \<and> getattr (cells h b) (reverse d) = Some a"
proof -
  obtain c0 cs' where cs: "cs = c0 # cs'" using chain_not_Nil[OF ch] by (cases cs) auto
  have c: "getattr (cells h c0) Left = None" "dpath h Right c0 cs'"
    using ch unfolding cs chain_Cons by simp_all
  show ?thesis
  proof (cases d)
    case Right
    from dpath_split_at[OF c(2) a[unfolded cs] g[unfolded Right]] obtain as bs where
      sp: "cs' = as @ b # bs" "last (c0 # as) = a" by blast
    from dpath_pred[of h Right c0 as b bs] c(2) sp show ?thesis
      by (simp add: cs Right)
  next
    case Left
    have "a \<noteq> c0" using g c(1) Left by auto
    then have "a \<in> set cs'" using a cs by simp
    then obtain as bs where sp: "cs' = as @ a # bs" by (auto simp: in_set_conv_decomp)
    from dpath_pred[of h Right c0 as a bs] c(2) g
    have b: "b = last (c0 # as)" "getattr (cells h b) Right = Some a"
      by (simp_all add: sp Left)
    have "last (c0 # as) \<in> set (c0 # as)" by (rule last_in_set) simp
    then have "b \<in> set cs" unfolding b(1) cs sp by auto
    then show ?thesis using b(2) by (simp add: Left)
  qed
qed

lemma chain_no_cycle:
  assumes ch: "chain h cs" and a: "a \<in> set cs"
  shows "\<exists>ps. iter_dir h a d = Some ps \<and> a \<notin> set ps"
proof -
  obtain c0 cs' where cs: "cs = c0 # cs'" using chain_not_Nil[OF ch] by (cases cs) auto
  have c: "getattr (cells h c0) Left = None" "dpath h Right c0 cs'" "distinct (c0 # cs')"
    using ch unfolding cs chain_Cons by simp_all
  show ?thesis
  proof (cases "a = c0")
    case True
    have "dpath h Left c0 []" using c(1) by simp
    then have "iter_dir h c0 Left = Some []" "iter_dir h c0 Right = Some cs'"
      using c(2) by (simp_all add: iter_dir_dpath)
    then show ?thesis using True c(3) by (cases d) simp_all
  next
    case False
    then have "a \<in> set cs'" using a cs by simp
    then obtain as bs where sp: "cs' = as @ a # bs" by (auto simp: in_set_conv_decomp)
    have r: "dpath h Right a bs" using dpath_suffix[of h Right c0 as a bs] c(2) by (simp add: sp)
    have "dpath h (reverse Right) c0 []" using c(1) by simp
    from dpath_rev_prefix[OF this, of as a bs] c(2)
    have l: "dpath h Left a (rev as @ [c0])" by (simp add: sp)
    have "a \<notin> set bs" "a \<notin> set (rev as @ [c0])" using c(3) by (auto simp: sp)
    then show ?thesis
      using iter_dir_dpath[OF r] iter_dir_dpath[OF l] by (cases d) simp_all
  qed
qed

lemma set_link_commute:
  "a \<noteq> b \<Longrightarrow> set_link (set_link h a d v) b d' w = set_link (set_link h b d' w) a d v"
  by (simp add: set_link_def fun_upd_twist)

lemma chain_end_right:
  "\<lbrakk>chain h A; p \<in> set A; getattr (cells h p) Right = None\<rbrakk> \<Longrightarrow> p = last A"
  by (cases A) (auto simp: chain_Cons dest: dpath_end_unique simp del: last.simps)

lemma chain_end_left:
  "\<lbrakk>chain h A; p \<in> set A; getattr (cells h p) Left = None\<rbrakk> \<Longrightarrow> p = hd A"
proof -
  assume ch: "chain h A" and p: "p \<in> set A" and n: "getattr (cells h p) Left = None"
  obtain c0 cs' where A: "A = c0 # cs'" using chain_not_Nil[OF ch] by (cases A) auto
  have d: "dpath h Right c0 cs'" using ch unfolding A chain_Cons by simp
  show ?thesis
  proof (rule ccontr)
    assume "p \<noteq> hd A"
    then have "p \<in> set cs'" using p A by simp
    from dpath_back_some[OF d this] n show False by simp
  qed
qed

lemma chain_join:
  assumes A: "chain h A" and B: "chain h B" and dj: "set A \<inter> set B = {}"
  shows "chain (set_link (set_link h (last A) Right (Some (hd B))) (hd B) Left (Some (last A)))
           (A @ B)"
proof -
  obtain a0 A' where Ae: "A = a0 # A'" using chain_not_Nil[OF A] by (cases A) auto
  obtain c B' where Be: "B = c # B'" using chain_not_Nil[OF B] by (cases B) auto
  define p where "p = last (a0 # A')"
  define h' where "h' = set_link (set_link h p Right (Some c)) c Left (Some p)"
  have a: "getattr (cells h a0) Left = None" "dpath h Right a0 A'" "distinct (a0 # A')"
    "\<forall>x \<in> set (a0 # A'). x < fresh h"
    using A unfolding Ae chain_Cons by simp_all
  have b: "getattr (cells h c) Left = None" "dpath h Right c B'" "distinct (c # B')"
    "\<forall>x \<in> set (c # B'). x < fresh h"
    using B unfolding Be chain_Cons by simp_all
  have pin: "p \<in> set (a0 # A')" unfolding p_def by (rule last_in_set) simp
  have pc: "p \<noteq> c" using pin dj by (auto simp: Ae Be)
  have pB: "p \<notin> set B'" using pin dj by (auto simp: Ae Be)
  have cA: "c \<notin> set (a0 # A')" using dj by (auto simp: Ae Be)
  have dB: "dpath h' Right c B'"
  proof (rule dpath_frame[OF b(2)])
    show "getattr (cells h' c) Right = getattr (cells h c) Right"
      using pc by (simp add: h'_def)
    show "\<forall>x \<in> set B'. cells h' x = cells h x"
    proof
      fix x assume "x \<in> set B'"
      then have "x \<noteq> p" "x \<noteq> c" using pB b(3) by auto
      then show "cells h' x = cells h x" by (simp add: h'_def)
    qed
  qed
  have "dpath h' Right a0 (A' @ c # B')"
  proof (rule dpath_append[OF a(2,3)])
    show "\<forall>x \<in> set (butlast (a0 # A')). cells h' x = cells h x"
    proof
      fix x assume x: "x \<in> set (butlast (a0 # A'))"
      then have "x \<in> set (a0 # A')" by (rule in_set_butlastD)
      then have "x \<noteq> c" using cA by auto
      moreover have "x \<noteq> p" using x last_notin_butlast[OF a(3)] unfolding p_def by auto
      ultimately show "cells h' x = cells h x" by (simp add: h'_def)
    qed
    show "getattr (cells h' (last (a0 # A'))) (reverse Right)
            = getattr (cells h (last (a0 # A'))) (reverse Right)"
      using pc unfolding p_def[symmetric] by (simp add: h'_def)
    show "dpath h' Right (last (a0 # A')) (c # B')"
      using pc dB unfolding p_def[symmetric] by (simp add: h'_def)
  qed
  moreover have "getattr (cells h' a0) Left = None"
    using a(1) cA by (auto simp: h'_def)
  moreover have "distinct (a0 # A' @ c # B')"
    using a(3) b(3) dj by (auto simp: Ae Be)
  moreover have "\<forall>x \<in> set (a0 # A' @ c # B'). x < fresh h'"
    using a(4) b(4) by (auto simp: h'_def)
  ultimately have "chain h' (A @ B)" unfolding Ae Be by (simp add: chain_Cons)
  then show ?thesis unfolding h'_def p_def Ae Be by simp
qed

lemma chain_split:
  assumes ch: "chain h (X @ Y)" and X: "X \<noteq> []" and Y: "Y \<noteq> []"
  shows "chain (set_link (set_link h (last X) Right None) (hd Y) Left None) X
       \<and> chain (set_link (set_link h (last X) Right None) (hd Y) Left None) Y"
proof -
  obtain c0 as where Xe: "X = c0 # as" using X by (cases X) auto
  obtain n bs where Ye: "Y = n # bs" using Y by (cases Y) auto
  define p where "p = last (c0 # as)"
  define h' where "h' = set_link (set_link h p Right None) n Left None"
  have c: "getattr (cells h c0) Left = None" "dpath h Right c0 (as @ n # bs)"
    "distinct (c0 # as @ n # bs)" "\<forall>x \<in> set (c0 # as @ n # bs). x < fresh h"
    using ch unfolding Xe Ye by (simp_all add: chain_Cons)
  have pin: "p \<in> set (c0 # as)" unfolding p_def by (rule last_in_set) simp
  have pn: "p \<noteq> n" using pin c(3) by auto
  have "dpath (set_link (set_link h (last (c0 # as)) Right None) n (reverse Right) None) Right c0 as"
    using c(2,3) by (rule dpath_cut)
  then have dX: "dpath h' Right c0 as" unfolding h'_def p_def by simp
  have lX: "getattr (cells h' c0) Left = None" using c(1) by (simp add: h'_def)
  have chX: "chain h' (c0 # as)"
    unfolding chain_Cons using dX lX c(3,4) by (auto simp: h'_def)
  have dY: "dpath h' Right n bs"
  proof (rule dpath_frame[OF dpath_suffix[OF c(2)]])
    show "getattr (cells h' n) Right = getattr (cells h n) Right"
      using pn by (simp add: h'_def)
    show "\<forall>x \<in> set bs. cells h' x = cells h x"
    proof
      fix x assume "x \<in> set bs"
      then have "x \<noteq> n" "x \<notin> set (c0 # as)" using c(3) by auto
      then have "x \<noteq> n" "x \<noteq> p" using pin by auto
      then show "cells h' x = cells h x" by (simp add: h'_def)
    qed
  qed
  have chY: "chain h' (n # bs)"
    unfolding chain_Cons using dY c(3,4) by (auto simp: h'_def)
  show ?thesis using chX chY unfolding h'_def p_def Xe Ye by simp
qed

lemma chain_of_in:
  "a \<in> set (concat css) \<Longrightarrow> chain_of css a \<in> set css \<and> a \<in> set (chain_of css a)"
  by (induction css) (auto simp: chain_of_def)

lemma chains_disjoint:
  "\<lbrakk>chains h css; cs \<in> set css; cs' \<in> set css; cs \<noteq> cs'\<rbrakk> \<Longrightarrow> set cs \<inter> set cs' = {}"
  unfolding chains_def by blast

lemma chains_chain: "\<lbrakk>chains h css; cs \<in> set css\<rbrakk> \<Longrightarrow> chain h cs"
  unfolding chains_def by blast

lemma chains_unique:
  assumes "chains h css" "cs \<in> set css" "a \<in> set cs"
  shows "chain_of css a = cs"
proof (rule ccontr)
  assume ne: "chain_of css a \<noteq> cs"
  have "a \<in> set (concat css)" using assms(2,3) by auto
  from chain_of_in[OF this] have c: "chain_of css a \<in> set css" "a \<in> set (chain_of css a)"
    by simp_all
  from chains_disjoint[OF assms(1) c(1) assms(2) ne] c(2) assms(3) show False by blast
qed

lemma chains_replace:
  assumes ch: "chains h css"
    and new: "\<forall>n \<in> set ns. chain h' n"
    and newdj: "\<forall>n \<in> set ns. \<forall>n' \<in> set ns. n \<noteq> n' \<longrightarrow> set n \<inter> set n' = {}"
    and kept: "\<forall>cs \<in> set css. K cs \<longrightarrow>
                 (\<forall>x \<in> set cs. cells h' x = cells h x) \<and> (\<forall>n \<in> set ns. set cs \<inter> set n = {})"
    and fr: "fresh h \<le> fresh h'"
  shows "chains h' (ns @ filter K css)"
proof -
  have k: "chain h' cs" if "cs \<in> set css" "K cs" for cs
    using chain_frame[OF chains_chain[OF ch that(1)], of h'] kept that fr by blast
  have a: "\<forall>cs \<in> set (ns @ filter K css). chain h' cs"
    using new k by auto
  have b: "set cs \<inter> set cs' = {}"
    if "cs \<in> set (ns @ filter K css)" "cs' \<in> set (ns @ filter K css)" "cs \<noteq> cs'" for cs cs'
  proof -
    have m: "cs \<in> set ns \<or> (cs \<in> set css \<and> K cs)" "cs' \<in> set ns \<or> (cs' \<in> set css \<and> K cs')"
      using that(1,2) by auto
    show ?thesis
    proof (cases "cs \<in> set ns")
      case True
      show ?thesis
      proof (cases "cs' \<in> set ns")
        case True
        with \<open>cs \<in> set ns\<close> show ?thesis using newdj that(3) by blast
      next
        case False
        then have "cs' \<in> set css" "K cs'" using m(2) by simp_all
        then have "set cs' \<inter> set cs = {}" using kept True by blast
        then show ?thesis by blast
      qed
    next
      case False
      then have c1: "cs \<in> set css" "K cs" using m(1) by simp_all
      show ?thesis
      proof (cases "cs' \<in> set ns")
        case True
        then show ?thesis using kept c1 by blast
      next
        case False
        then have "cs' \<in> set css" using m(2) by simp
        then show ?thesis using chains_disjoint[OF ch c1(1) _ that(3)] by blast
      qed
    qed
  qed
  show ?thesis unfolding chains_def using a b by blast
qed

lemma new_preserves:
  assumes ch: "chains h css"
  shows "chains (fst (new_pot h v)) ([fresh h] # css)"
proof -
  let ?h' = "fst (new_pot h v)"
  have lt: "x < fresh h" if "cs \<in> set css" "x \<in> set cs" for cs x
    using chains_chain[OF ch that(1)] that(2) by (cases cs) (auto simp: chain_Cons)
  have "chains ?h' ([[fresh h]] @ filter (\<lambda>cs. True) css)"
  proof (rule chains_replace[OF ch])
    show "\<forall>n \<in> set [[fresh h]]. chain ?h' n" by (simp add: chain_Cons)
    show "\<forall>n \<in> set [[fresh h]]. \<forall>n' \<in> set [[fresh h]]. n \<noteq> n' \<longrightarrow> set n \<inter> set n' = {}"
      by simp
    show "\<forall>cs \<in> set css. True \<longrightarrow>
            (\<forall>x \<in> set cs. cells ?h' x = cells h x) \<and> (\<forall>n \<in> set [[fresh h]]. set cs \<inter> set n = {})"
    proof (intro ballI impI conjI)
      fix cs x assume "cs \<in> set css" "x \<in> set cs"
      then have "x \<noteq> fresh h" using lt by blast
      then show "cells ?h' x = cells h x" by simp
    next
      fix cs n assume "cs \<in> set css" "n \<in> set [[fresh h]]"
      then show "set cs \<inter> set n = {}" using lt by fastforce
    qed
    show "fresh h \<le> fresh ?h'" by simp
  qed
  then show ?thesis by simp
qed

lemma link_preserves:
  assumes ch: "chains h css" and p: "p \<in> set (concat css)" and c: "c \<in> set (concat css)"
    and cp: "c \<notin> set (chain_of css p)" and rv: "getattr (cells h c) (reverse d) = None"
    and ex: "append h p d c = Inr h'"
  shows "chains h' (link_chains p d c css)
       \<and> set (concat css) \<subseteq> set (concat (link_chains p d c css))"
proof -
  define A where "A = chain_of css p"
  define B where "B = chain_of css c"
  have A: "A \<in> set css" "p \<in> set A" unfolding A_def using chain_of_in[OF p] by simp_all
  have B: "B \<in> set css" "c \<in> set B" unfolding B_def using chain_of_in[OF c] by simp_all
  have AB: "A \<noteq> B" using cp B(2) unfolding A_def by auto
  have dj: "set A \<inter> set B = {}" using chains_disjoint[OF ch A(1) B(1) AB] .
  have chA: "chain h A" and chB: "chain h B"
    using chains_chain[OF ch] A(1) B(1) by simp_all
  have pc: "p \<noteq> c" using A(2) B(2) dj by auto
  have pn: "getattr (cells h p) d = None"
    and h': "h' = set_link (set_link h p d (Some c)) c (reverse d) (Some p)"
    using ex by (auto simp: append_def split: if_splits)
  define J where "J = (case d of Right \<Rightarrow> A @ B | Left \<Rightarrow> B @ A)"
  have setJ: "set J = set A \<union> set B" unfolding J_def by (cases d) auto
  have chJ: "chain h' J"
  proof (cases d)
    case Right
    have "p = last A" using chain_end_right[OF chA A(2)] pn Right by simp
    moreover have "c = hd B" using chain_end_left[OF chB B(2)] rv Right by simp
    ultimately show ?thesis
      using chain_join[OF chA chB dj] by (simp add: h' Right J_def)
  next
    case Left
    have "p = hd A" using chain_end_left[OF chA A(2)] pn Left by simp
    moreover have "c = last B" using chain_end_right[OF chB B(2)] rv Left by simp
    moreover have "set B \<inter> set A = {}" using dj by blast
    ultimately have "chain (set_link (set_link h c Right (Some p)) p Left (Some c)) (B @ A)"
      using chain_join[OF chB chA] by simp
    then show ?thesis
      using set_link_commute[OF pc, of h Left "Some c" Right "Some p"]
      by (simp add: h' Left J_def)
  qed
  let ?K = "\<lambda>cs. p \<notin> set cs \<and> c \<notin> set cs"
  have lc: "link_chains p d c css = [J] @ filter ?K css"
    unfolding link_chains_def J_def A_def B_def by simp
  have "chains h' ([J] @ filter ?K css)"
  proof (rule chains_replace[OF ch])
    show "\<forall>n \<in> set [J]. chain h' n" using chJ by simp
    show "\<forall>n \<in> set [J]. \<forall>n' \<in> set [J]. n \<noteq> n' \<longrightarrow> set n \<inter> set n' = {}" by simp
    show "\<forall>cs \<in> set css. ?K cs \<longrightarrow>
            (\<forall>x \<in> set cs. cells h' x = cells h x) \<and> (\<forall>n \<in> set [J]. set cs \<inter> set n = {})"
    proof (intro ballI impI conjI)
      fix cs x assume "cs \<in> set css" "?K cs" "x \<in> set cs"
      then have "x \<noteq> p" "x \<noteq> c" by auto
      then show "cells h' x = cells h x" by (simp add: h')
    next
      fix cs n assume cs: "cs \<in> set css" "?K cs" and n: "n \<in> set [J]"
      have "cs \<noteq> A" "cs \<noteq> B" using cs(2) A(2) B(2) by auto
      then have "set cs \<inter> set A = {}" "set cs \<inter> set B = {}"
        using chains_disjoint[OF ch cs(1) A(1)] chains_disjoint[OF ch cs(1) B(1)] by simp_all
      then show "set cs \<inter> set n = {}" using n setJ by auto
    qed
    show "fresh h \<le> fresh h'" by (simp add: h')
  qed
  moreover have "set (concat css) \<subseteq> set (concat ([J] @ filter ?K css))"
  proof
    fix x assume "x \<in> set (concat css)"
    then obtain cs where cs: "cs \<in> set css" "x \<in> set cs" by auto
    show "x \<in> set (concat ([J] @ filter ?K css))"
    proof (cases "?K cs")
      case True
      then show ?thesis using cs by auto
    next
      case False
      then have "cs = A \<or> cs = B"
        using chains_unique[OF ch cs(1)] A_def B_def by auto
      then show ?thesis using cs(2) setJ by auto
    qed
  qed
  ultimately show ?thesis unfolding lc by simp
qed

lemma takeWhile_last:
  assumes "distinct X" "X \<noteq> []"
  shows "takeWhile (\<lambda>a. a \<noteq> last X) (X @ Y) @ [last X] = X
       \<and> dropWhile (\<lambda>a. a \<noteq> last X) (X @ Y) = last X # Y"
proof -
  have X: "X = butlast X @ [last X]" using assms(2) by simp
  have n: "\<And>x. x \<in> set (butlast X) \<Longrightarrow> x \<noteq> last X"
    using last_notin_butlast[OF assms] by blast
  have e: "X @ Y = butlast X @ (last X # Y)" using X by (metis append_Cons append_Nil append_assoc)
  have "takeWhile (\<lambda>a. a \<noteq> last X) (butlast X @ (last X # Y)) = butlast X"
    "dropWhile (\<lambda>a. a \<noteq> last X) (butlast X @ (last X # Y)) = last X # Y"
    using n by (simp_all add: takeWhile_append2 dropWhile_append2 del: butlast.simps)
  then show ?thesis unfolding e using X by simp
qed

lemma takeWhile_hd:
  assumes "p \<notin> set X"
  shows "takeWhile (\<lambda>a. a \<noteq> p) (X @ p # Y) = X \<and> dropWhile (\<lambda>a. a \<noteq> p) (X @ p # Y) = p # Y"
  using assms by (induction X) auto

lemma unlink_preserves:
  assumes ch: "chains h css" and p: "p \<in> set (concat css)"
    and ex: "detach h p d = Inr (h', n)"
  shows "chains h' (unlink_chains p d css)
       \<and> set (concat css) \<subseteq> set (concat (unlink_chains p d css))"
proof -
  define A where "A = chain_of css p"
  have A: "A \<in> set css" "p \<in> set A" unfolding A_def using chain_of_in[OF p] by simp_all
  have chA: "chain h A" using chains_chain[OF ch A(1)] .
  obtain c0 cs' where Ae: "A = c0 # cs'" using chain_not_Nil[OF chA] by (cases A) auto
  have c: "getattr (cells h c0) Left = None" "dpath h Right c0 cs'" "distinct (c0 # cs')"
    using chA unfolding Ae chain_Cons by simp_all
  have pn: "getattr (cells h p) d = Some n"
    and h': "h' = set_link (set_link h p d None) n (reverse d) None"
    using ex by (auto simp: detach_def split: option.splits)
  have "\<exists>X Y. A = X @ Y \<and> X \<noteq> [] \<and> Y \<noteq> []
          \<and> h' = set_link (set_link h (last X) Right None) (hd Y) Left None
          \<and> unlink_chains p d css = [X, Y] @ filter (\<lambda>cs. p \<notin> set cs) css"
  proof (cases d)
    case Right
    from dpath_split_at[OF c(2) A(2)[unfolded Ae] pn[unfolded Right]] obtain as bs where
      sp: "cs' = as @ n # bs" "last (c0 # as) = p" by blast
    let ?X = "c0 # as" and ?Y = "n # bs"
    have AXY: "A = ?X @ ?Y" by (simp add: Ae sp(1))
    have dX: "distinct ?X" using c(3) by (simp add: sp(1))
    from takeWhile_last[OF dX, of ?Y]
    have tw: "takeWhile (\<lambda>a. a \<noteq> p) A @ [p] = ?X" "dropWhile (\<lambda>a. a \<noteq> p) A = p # ?Y"
      unfolding sp(2) AXY by simp_all
    have "unlink_chains p d css = [?X, ?Y] @ filter (\<lambda>cs. p \<notin> set cs) css"
      unfolding unlink_chains_def A_def[symmetric] Right using tw by simp
    moreover have "h' = set_link (set_link h (last ?X) Right None) (hd ?Y) Left None"
      unfolding sp(2) by (simp add: h' Right)
    ultimately show ?thesis using AXY by blast
  next
    case Left
    have "p \<noteq> c0" using pn c(1) Left by auto
    then have "p \<in> set cs'" using A(2) Ae by simp
    then obtain as bs where sp: "cs' = as @ p # bs" by (auto simp: in_set_conv_decomp)
    have n: "n = last (c0 # as)"
      using dpath_pred[of h Right c0 as p bs] c(2) pn by (simp add: sp Left)
    let ?X = "c0 # as" and ?Y = "p # bs"
    have AXY: "A = ?X @ ?Y" by (simp add: Ae sp)
    have pX: "p \<notin> set ?X" using c(3) by (auto simp: sp)
    from takeWhile_hd[OF pX, of bs]
    have tw: "takeWhile (\<lambda>a. a \<noteq> p) A = ?X" "dropWhile (\<lambda>a. a \<noteq> p) A = ?Y"
      unfolding AXY by simp_all
    have "unlink_chains p d css = [?X, ?Y] @ filter (\<lambda>cs. p \<notin> set cs) css"
      unfolding unlink_chains_def A_def[symmetric] Left using tw by simp
    moreover have "n \<in> set ?X" unfolding n by (rule last_in_set) simp
    then have "p \<noteq> n" using pX by blast
    then have "h' = set_link (set_link h (last ?X) Right None) (hd ?Y) Left None"
      unfolding n[symmetric] using set_link_commute[of p n h Left None Right None]
      by (simp add: h' Left)
    ultimately show ?thesis using AXY by blast
  qed
  then obtain X Y where XY: "A = X @ Y" "X \<noteq> []" "Y \<noteq> []"
    "h' = set_link (set_link h (last X) Right None) (hd Y) Left None"
    "unlink_chains p d css = [X, Y] @ filter (\<lambda>cs. p \<notin> set cs) css"
    by blast
  have sp: "chain h' X" "chain h' Y"
    using chain_split[OF chA[unfolded XY(1)] XY(2,3)] unfolding XY(4) by simp_all
  have dA: "distinct (X @ Y)" using c(3) unfolding Ae[symmetric] XY(1) .
  have lin: "last X \<in> set A" "hd Y \<in> set A" using XY(1,2,3) by auto
  let ?K = "\<lambda>cs. p \<notin> set cs"
  have "chains h' ([X, Y] @ filter ?K css)"
  proof (rule chains_replace[OF ch])
    show "\<forall>n \<in> set [X, Y]. chain h' n" using sp by simp
    show "\<forall>n \<in> set [X, Y]. \<forall>n' \<in> set [X, Y]. n \<noteq> n' \<longrightarrow> set n \<inter> set n' = {}"
      using dA by auto
    show "\<forall>cs \<in> set css. ?K cs \<longrightarrow>
            (\<forall>x \<in> set cs. cells h' x = cells h x) \<and> (\<forall>n \<in> set [X, Y]. set cs \<inter> set n = {})"
    proof (intro ballI impI)
      fix cs assume cs: "cs \<in> set css" "?K cs"
      have "cs \<noteq> A" using cs(2) A(2) by auto
      then have d: "set cs \<inter> set A = {}" using chains_disjoint[OF ch cs(1) A(1)] by simp
      have "cells h' x = cells h x" if "x \<in> set cs" for x
      proof -
        have "x \<noteq> last X" "x \<noteq> hd Y" using that d lin by auto
        then show ?thesis unfolding XY(4) by simp
      qed
      moreover have "set cs \<inter> set n = {}" if "n \<in> set [X, Y]" for n
        using that d XY(1) by auto
      ultimately show "(\<forall>x \<in> set cs. cells h' x = cells h x) \<and> (\<forall>n \<in> set [X, Y]. set cs \<inter> set n = {})"
        by blast
    qed
    show "fresh h \<le> fresh h'" unfolding XY(4) by simp
  qed
  moreover have "set (concat css) \<subseteq> set (concat ([X, Y] @ filter ?K css))"
  proof
    fix x assume "x \<in> set (concat css)"
    then obtain cs where cs: "cs \<in> set css" "x \<in> set cs" by auto
    show "x \<in> set (concat ([X, Y] @ filter ?K css))"
    proof (cases "?K cs")
      case True
      then show ?thesis using cs by auto
    next
      case False
      then have "cs = A" using chains_unique[OF ch cs(1)] A_def by auto
      then show ?thesis using cs(2) XY(1) by auto
    qed
  qed
  ultimately show ?thesis unfolding XY(5) by simp
qed

lemma exec_materialize:
  "exec_op (Materialize p d) h = append (fst (new_pot h True)) p d (fresh h)"
  by (simp add: potential_set_plant_def new_potential_pot_def split_beta split: sum.splits)

lemma chains_exec_op:
  assumes ch: "chains h css" and ok: "op_ok x h css" and ex: "exec_op x h = Inr h'"
  shows "chains h' (chains_after x h css)
       \<and> set (concat css) \<subseteq> set (concat (chains_after x h css))"
proof (cases x)
  case (New v)
  then show ?thesis using new_preserves[OF ch, of v] ex by auto
next
  case (Link p d c)
  then show ?thesis using link_preserves[OF ch, of p c d h'] ok ex by simp
next
  case (Unlink p d)
  then obtain n where "detach h p d = Inr (h', n)"
    using ex by (auto split: sum.splits)
  then show ?thesis using unlink_preserves[OF ch, of p d h' n] ok Unlink by simp
next
  case (Materialize p d)
  let ?h1 = "fst (new_pot h True)"
  let ?css1 = "[fresh h] # css"
  have ch1: "chains ?h1 ?css1" using new_preserves[OF ch] .
  have p: "p \<in> set (concat css)" using ok Materialize by simp
  then have p1: "p \<in> set (concat ?css1)" by simp
  have lt: "y < fresh h" if "cs \<in> set css" "y \<in> set cs" for cs y
    using chains_chain[OF ch that(1)] that(2) by (cases cs) (auto simp: chain_Cons)
  have pf: "p \<noteq> fresh h" using p lt by auto
  have c1: "fresh h \<in> set (concat ?css1)" by simp
  have nin: "fresh h \<notin> set (chain_of ?css1 p)"
  proof
    assume a: "fresh h \<in> set (chain_of ?css1 p)"
    from chain_of_in[OF p1] have "chain_of ?css1 p \<in> set ?css1" "p \<in> set (chain_of ?css1 p)"
      by simp_all
    then show False using a lt pf by auto
  qed
  have rv: "getattr (cells ?h1 (fresh h)) (reverse d) = None" by simp
  have ex1: "append ?h1 p d (fresh h) = Inr h'"
    using ex by (simp only: Materialize exec_materialize)
  from link_preserves[OF ch1 p1 c1 nin rv ex1]
  show ?thesis by (auto simp: Materialize)
qed

lemma chains_run_ops:
  "\<lbrakk>chains h css; ops_ok xs h css; run_ops xs h css = Inr (h', css')\<rbrakk> \<Longrightarrow>
   chains h' css' \<and> set (concat css) \<subseteq> set (concat css')"
proof (induction xs arbitrary: h css)
  case Nil
  then show ?case by simp
next
  case (Cons x xs)
  from Cons.prems(3) obtain h1 where h1: "exec_op x h = Inr h1"
    and r: "run_ops xs h1 (chains_after x h css) = Inr (h', css')"
    by (auto split: sum.splits)
  have ok: "op_ok x h css" "ops_ok xs h1 (chains_after x h css)"
    using Cons.prems(2) h1 by simp_all
  from chains_exec_op[OF Cons.prems(1) ok(1) h1]
  have s: "chains h1 (chains_after x h css)"
    "set (concat css) \<subseteq> set (concat (chains_after x h css))" by simp_all
  from Cons.IH[OF s(1) ok(2) r] s(2) show ?case by blast
qed

lemma chains_single: "chains h [cs] = chain h cs"
  by (simp add: chains_def)

lemma three_pots_ok:
  "ops_ok [Unlink 2 Left, Unlink 1 Left, Materialize 0 Right, New True, Link 3 Right 4,
           Link 4 Right 1] three_pots [[0, 1, 2]]"
  by (simp add: three_pots_def append_def detach_def set_link_def potential_set_plant_def
        new_potential_pot_def new_pot_def link_chains_def unlink_chains_def chain_of_def)

lemma three_pots_run:
  "\<exists>h'. run_ops [Unlink 2 Left, Unlink 1 Left, Materialize 0 Right, New True, Link 3 Right 4,
                  Link 4 Right 1] three_pots [[0, 1, 2]] = Inr (h', [[0, 3, 4, 1], [2]])"
  by (simp add: three_pots_def append_def detach_def set_link_def potential_set_plant_def
        new_potential_pot_def new_pot_def link_chains_def unlink_chains_def chain_of_def)

section \<open>The claims\<close>

subsection \<open>Loading the initial state\<close>

text \<open>
  C10: \<open>from_initial\<close> is partial. On the empty literal no pot is appended to the
  start node, \<open>start.right\<close> is \<open>None\<close> and the assignment \<open>root.left = None\<close> raises
  \<open>AttributeError\<close>; on every non-empty literal it returns a root. So it fails exactly on
  the empty literal.
\<close>
theorem from_initial_empty_fails:
  "from_initial h [] = Inl AttributeError \<and> (\<forall>s. isl (from_initial h s) = (s = []))"
proof -
  have e: "from_initial h [] = Inl AttributeError"
    by (simp add: from_initial_def new_pot_def)
  have "isl (from_initial h s) = (s = [])" for s
  proof (cases "s = []")
    case True then show ?thesis using e by simp
  next
    case False
    from from_initial_ok[OF False, of h] show ?thesis using False by auto
  qed
  then show ?thesis using e by simp
qed

text \<open>
  C4, as stated, does not hold: the literal \<open>#x#\<close> contains a character outside
  \<open>{'.', '#'}\<close>, and loading it does not fail; it yields the tape \<open>#.#\<close>.
\<close>
theorem from_initial_accepts_other_characters:
  "\<not> isl (from_initial empty_heap ''#x#'')
   \<and> (case from_initial empty_heap ''#x#'' of Inl e \<Rightarrow> None | Inr (h, root) \<Rightarrow> plants_str h root) = Some ''#.#''"
  by code_simp

text \<open>
  C4, amended: no character is rejected. Every non-empty literal loads, and every character
  other than \<open>#\<close> is read as a pot without a plant, as \<open>cls(c == '#')\<close> says.
\<close>

theorem from_initial_reads_non_hash_as_empty:
  "s \<noteq> [] \<Longrightarrow>
   \<exists>h' root. from_initial h s = Inr (h', root)
     \<and> plants_str h' root = Some (map (\<lambda>c. if c = CHR ''#'' then CHR ''#'' else CHR ''.'') s)"
  using from_initial_str[of s h] by blast

theorem from_initial_reads_non_hash_as_empty_witness:
  "''a#b'' \<noteq> [] \<and>
   (\<exists>h' root. from_initial empty_heap ''a#b'' = Inr (h', root) \<and> plants_str h' root = Some ''.#.'')"
  using from_initial_reads_non_hash_as_empty[of "''a#b''" empty_heap] by simp

text \<open>
  C6: for a non-empty literal over \<open>{'.', '#'}\<close>, \<open>__str__\<close> right after
  \<open>from_initial\<close> gives the literal back. The first character is the root, which has
  nothing on its left, and the remaining characters are the pots to its right, in order.
\<close>
theorem from_initial_round_trip:
  "\<lbrakk>s \<noteq> []; set s \<subseteq> {CHR ''.'', CHR ''#''}\<rbrakk> \<Longrightarrow>
   \<exists>h' root. from_initial h s = Inr (h', root)
     \<and> plants_str h' root = Some s
     \<and> iter_dir h' root Left = Some []
     \<and> plant (cells h' root) = (hd s = CHR ''#'')
     \<and> (\<exists>rs. iter_dir h' root Right = Some rs \<and> plants_of h' rs = map (\<lambda>c. c = CHR ''#'') (tl s))"
proof -
  assume ne: "s \<noteq> []" and wf: "set s \<subseteq> {CHR ''.'', CHR ''#''}"
  have "map (\<lambda>c. if c = CHR ''#'' then CHR ''#'' else CHR ''.'') s = s"
    using wf by (induction s) auto
  then show ?thesis using from_initial_str[OF ne, of h] by simp
qed

theorem from_initial_round_trip_witness:
  "''#..#'' \<noteq> [] \<and> set ''#..#'' \<subseteq> {CHR ''.'', CHR ''#''} \<and>
   (\<exists>h' root. from_initial empty_heap ''#..#'' = Inr (h', root) \<and> plants_str h' root = Some ''#..#'')"
  using from_initial_round_trip[of "''#..#''" empty_heap] by auto


subsection \<open>The rule table\<close>

text \<open>
  C3: every sequence of rule entries can be supplied as lines, for instance one line
  \<open>PPPPP => R\<close> per entry. Whatever lines supply the entries (a line contributes its
  \<open>.\<close>/\<open>#\<close> characters: the last one is the result, those before it the pattern), loading
  succeeds, every pattern of five booleans has a value, and that value is the result of
  the last entry for the pattern, or false when there is none. Duplicates are overwritten
  without error.
\<close>
theorem rules_from_lines_last_entry_wins:
  "parsed (map entry_line entries) = map (\<lambda>(k, r). k @ [r]) entries
   \<and> (parsed lines = map (\<lambda>(k, r). k @ [r]) entries \<longrightarrow>
        (\<exists>m. rules_from_lines lines = Inr m
           \<and> (\<forall>p. length p = 5 \<longrightarrow>
                 next_plant_state m p
                   = Inr (case last_entry entries p of Some r \<Rightarrow> r | None \<Rightarrow> False))))"
  by (auto simp: parsed_entry_lines rules_from_lines_entries next_plant_state_def map_add_def
        blank_rules_lookup split: option.splits)

theorem rules_from_lines_last_entry_wins_witness:
  "parsed [''..#.. => #'', [], ''..#.. => .'', '' '', ''...## => #'']
     = map (\<lambda>(k, r). k @ [r])
         [([False, False, True, False, False], True), ([False, False, True, False, False], False),
          ([False, False, False, True, True], True)]
   \<and> (\<exists>m. rules_from_lines [''..#.. => #'', [], ''..#.. => .'', '' '', ''...## => #''] = Inr m
        \<and> next_plant_state m [False, False, True, False, False] = Inr False
        \<and> next_plant_state m [False, False, False, True, True] = Inr True
        \<and> next_plant_state m [True, False, False, True, True] = Inr False)"
proof -
  let ?lines = "[''..#.. => #'', [], ''..#.. => .'', '' '', ''...## => #'']"
  let ?entries = "[([False, False, True, False, False], True),
                   ([False, False, True, False, False], False),
                   ([False, False, False, True, True], True)]"
  have p: "parsed ?lines = map (\<lambda>(k, r). k @ [r]) ?entries"
    by (simp add: parsed_def strip_def isspace_def rule_parse_def)
  from rules_from_lines_last_entry_wins[of ?entries ?lines] p show ?thesis
    by (auto simp: last_entry_def)
qed

text \<open>
  C5, as stated, does not hold: the line \<open>..# -> #x\<close> has a three-character pattern, a
  wrong arrow and trailing text, and loading it does not fail; it adds the key
  \<open>(False, False, True)\<close> to the dictionary.
\<close>
theorem rules_from_lines_accepts_other_shapes:
  "\<not> isl (rules_from_lines [''..# -> #x''])
   \<and> (case rules_from_lines [''..# -> #x''] of Inl e \<Rightarrow> None | Inr m \<Rightarrow> m [False, False, True]) = Some True"
  by (simp add: rules_from_lines_def parsed_def strip_def isspace_def rule_parse_def map_add_def)

text \<open>
  C5, amended: rule loading fails, with \<open>ValueError\<close>, exactly when some non-blank line
  contains no \<open>.\<close> or \<open>#\<close> at all. Any other non-blank line is accepted whatever its
  shape: the last of its \<open>.\<close>/\<open>#\<close> characters is the result and those before it
  are the key. Blank and whitespace-only lines are skipped.
\<close>

theorem rules_from_lines_failure:
  "(rules_from_lines lines = Inl ValueError) = (\<exists>l \<in> set lines. strip l \<noteq> [] \<and> rule_parse l = [])
   \<and> isl (rules_from_lines lines) = (\<exists>l \<in> set lines. strip l \<noteq> [] \<and> rule_parse l = [])
   \<and> (\<not> isl (rules_from_lines lines) \<longrightarrow>
        rules_from_lines lines =
          Inr (blank_rules ++ last_entry (map (\<lambda>e. (butlast e, last e)) (parsed lines))))
   \<and> (strip l = [] \<longrightarrow> rules_from_lines (xs @ l # ys) = rules_from_lines (xs @ ys))
   \<and> (strip l = []) = (\<forall>c \<in> set l. isspace c)"
proof -
  have isl: "isl (rules_from_lines lines) = ([] \<in> set (parsed lines))"
    using rule_dict_fails[of Map.empty "parsed lines"]
    by (auto simp: rules_from_lines_def split: sum.splits)
  have err: "rules_from_lines lines = Inl ValueError" if "isl (rules_from_lines lines)"
    using that rule_dict_error[of Map.empty "parsed lines"]
    by (auto simp: rules_from_lines_def split: sum.splits)
  have ok: "rules_from_lines lines =
          Inr (blank_rules ++ last_entry (map (\<lambda>e. (butlast e, last e)) (parsed lines)))"
    if "\<not> isl (rules_from_lines lines)"
  proof (rule rules_from_lines_entries)
    have "[] \<notin> set (parsed lines)" using that isl by simp
    from entries_of_parsed[OF this]
    show "parsed lines = map (\<lambda>(k, r). k @ [r]) (map (\<lambda>e. (butlast e, last e)) (parsed lines))"
      by (rule sym)
  qed
  have skip: "rules_from_lines (xs @ l # ys) = rules_from_lines (xs @ ys)" if "strip l = []"
    using that by (simp add: rules_from_lines_def parsed_skip_blank)
  show ?thesis using isl err ok skip parsed_has_empty[of lines] strip_eq_Nil[of l] by auto
qed

theorem rules_from_lines_failure_witness:
  "rules_from_lines [''  '', ''..#.. => #'', ''rule''] = Inl ValueError
   \<and> \<not> isl (rules_from_lines [''  '', ''..#.. = #''])
   \<and> rules_from_lines ([] @ ''  '' # [''..#.. = #'']) = rules_from_lines ([] @ [''..#.. = #''])"
proof -
  have s: "strip ''  '' = []" "strip ''rule'' \<noteq> []" "strip ''..#.. => #'' \<noteq> []" "strip ''..#.. = #'' \<noteq> []"
    by (simp_all add: strip_def isspace_def)
  have r: "rule_parse ''rule'' = []" "rule_parse ''..#.. = #'' \<noteq> []" "rule_parse ''  '' = []"
    by (simp_all add: rule_parse_def)
  show ?thesis
    using rules_from_lines_failure[of "[''  '', ''..#.. => #'', ''rule'']" "''  ''" "[]" "[''..#.. = #'']"]
      rules_from_lines_failure[of "[''  '', ''..#.. = #'']" "''  ''" "[]" "[''..#.. = #'']"] s r
    by simp
qed


subsection \<open>The score\<close>

text \<open>
  C7: on every well-formed tape the score is the sum of the signed positions of the pots
  that hold a plant; the root counts \<open>0\<close> even when it holds one. In particular a tape
  whose plants are exactly at \<open>-2\<close>, \<open>0\<close> and \<open>3\<close> scores \<open>1\<close>.
\<close>
theorem score_sums_signed_positions:
  "tape h root ls rs \<Longrightarrow>
   score h root = Some (\<Sum>i \<in> true_offsets h root ls rs. i)
   \<and> (true_offsets h root ls rs = {- 2, 0, 3} \<longrightarrow> score h root = Some 1)"
proof -
  assume t: "tape h root ls rs"
  have s: "score h root = Some (\<Sum>i \<in> true_offsets h root ls rs. i)"
    using score_tape[OF t] by (simp add: sum_true_offsets score_positions)
  moreover have "(\<Sum>i \<in> {- 2, 0, 3 :: int}. i) = 1" by simp
  ultimately show ?thesis by simp
qed

theorem score_sums_signed_positions_witness:
  "tape score_example 0 [1, 2] [3, 4, 5]
   \<and> true_offsets score_example 0 [1, 2] [3, 4, 5] = {- 2, 0, 3}
   \<and> score score_example 0 = Some 1"
proof -
  have t: "tape score_example 0 [1, 2] [3, 4, 5]"
    by (simp add: tape_def score_example_def)
  have o: "true_offsets score_example 0 [1, 2] [3, 4, 5] = {- 2, 0, 3}"
    by (auto simp: true_offsets_def positions_def score_example_def enumerate_eq_zip upt_rec)
  show ?thesis using score_sums_signed_positions[OF t] t o by simp
qed


subsection \<open>Generations\<close>

text \<open>
  C1: the test cell of the notebook. Loading the initial state \<open>#..#.#..##......###...###\<close>
  with the fourteen rules of the fixture, calling \<open>step\<close> twenty times and reading the
  score gives 325.
\<close>
theorem testplants_score_325: "score_after testplants_lines 20 = Some 325"
proof -
  let ?lit = "''#..#.#..##......###...###''"
  obtain m where m: "rules_from_lines (tl testplants_lines) = Inr m"
    and ev: "map_option plants_score
          (plants_steps 20 3 m ([], True, map (\<lambda>c. c = CHR ''#'') ''..#.#..##......###...###'')) = Some 325"
    using testplants_plants by (auto split: sum.splits)
  obtain t where t: "plants_steps 20 3 m ([], True, map (\<lambda>c. c = CHR ''#'') ''..#.#..##......###...###'') = Some t"
    and sc: "plants_score t = 325"
    using ev by auto
  obtain ls' c' rs' where t': "t = (ls', c', rs')" by (cases t)
  have ne: "?lit \<noteq> []" by simp
  obtain h root where fi: "from_initial empty_heap ?lit = Inr (h, root)"
    using from_initial_ok[OF ne, of empty_heap] by blast
  from from_initial_tape[OF ne fi] obtain rs where rs:
    "tape h root [] rs" "plant (cells h root) = True"
    "plants_of h rs = map (\<lambda>c. c = CHR ''#'') ''..#.#..##......###...###''"
    by auto
  have tot: "total5 m" using m by (rule rules_from_lines_total5)
  have "plants_steps 20 3 m (plants_of h [], plant (cells h root), plants_of h rs) = Some (ls', c', rs')"
    using t rs(2,3) by (simp add: t')
  from steps_correct[OF rs(1) tot this] obtain h' as bs where h':
    "steps 20 m root h = Some (Inr h')" "tape h' root as bs"
    "plants_of h' as = ls'" "plant (cells h' root) = c'" "plants_of h' bs = rs'"
    by blast
  have "score h' root = Some 325"
    using score_plants[OF h'(2)] h'(3,4,5) sc by (simp add: t')
  moreover have "plants_from_lines empty_heap testplants_lines = Inr (h, root, m)"
    using testplants_initial fi m by (simp add: plants_from_lines_def testplants_lines_def)
  ultimately show ?thesis by (simp add: score_after_def h'(1))
qed

text \<open>
  C9: with a table that maps every pattern to false, and any initial tape that loads, every
  call of \<open>step\<close> returns, and after one or more calls the tape is the root alone, without
  a plant and without neighbours.
\<close>
theorem all_false_rules_clear_the_tape:
  assumes "all_false m" "from_initial h0 s = Inr (h, root)"
  shows "\<exists>h'. steps n m root h = Some (Inr h')
           \<and> (0 < n \<longrightarrow> plants_str h' root = Some ''.'' \<and> \<not> plant (cells h' root)
                 \<and> left (cells h' root) = None \<and> right (cells h' root) = None)"
proof (cases n)
  case 0
  then show ?thesis by simp
next
  case (Suc j)
  have ne: "s \<noteq> []" using assms(2) by (rule from_initial_nonempty)
  from from_initial_tape[OF ne assms(2)] obtain rs where rs: "tape h root [] rs" by blast
  have "plants_steps n (Suc 0) m (plants_of h [], plant (cells h root), plants_of h rs)
          = Some ([], False, [])"
    using assms(1) Suc by (intro plants_steps_all_false) simp_all
  from steps_correct[OF rs all_false_total5[OF assms(1)] this] obtain h' as bs where h':
    "steps n m root h = Some (Inr h')" "tape h' root as bs"
    "plants_of h' as = []" "plant (cells h' root) = False" "plants_of h' bs = []"
    by blast
  have e: "as = []" "bs = []" using h'(3,5) by (simp_all add: plants_of_def)
  have "plants_str h' root = Some ''.''"
    using plants_str_tape[OF h'(2)] h'(4) by (simp add: e pot_str_def)
  moreover have "left (cells h' root) = None" "right (cells h' root) = None"
    using h'(2) by (simp_all add: tape_def e)
  ultimately show ?thesis using h'(1,4) by simp
qed

theorem all_false_rules_clear_the_tape_witness:
  "all_false blank_rules
   \<and> (\<exists>h root. from_initial empty_heap ''#.##'' = Inr (h, root)
        \<and> (\<exists>h'. steps 3 blank_rules root h = Some (Inr h') \<and> plants_str h' root = Some ''.''
              \<and> left (cells h' root) = None \<and> right (cells h' root) = None))"
proof -
  have a: "all_false blank_rules"
    by (simp add: all_false_def list_all_iff blank_rules_lookup set_product_lists_bool)
  obtain h root where fi: "from_initial empty_heap ''#.##'' = Inr (h, root)"
    using from_initial_ok[of "''#.##''" empty_heap] by auto
  from all_false_rules_clear_the_tape[OF a fi, of 3] a fi show ?thesis by auto
qed

text \<open>
  C2 fails on the code. With the single rule \<open>#.... => #\<close> the trimmed tape \<open>#\<close> steps to
  \<open>.\<close>, while the same tape padded with two empty pots, \<open>#..\<close>, steps to \<open>..#\<close>: the
  walk stops at the first potential pot that stays empty, so the plant two pots beyond the
  end of the chain is only written when a real pot is already there.
\<close>
theorem step_on_trimmed_and_padded_tape_differ:
  "tape_after [''initial state: #'', ''#.... => #''] 1 = Some ''.''
   \<and> tape_after [''initial state: #..'', ''#.... => #''] 1 = Some ''..#''"
  by code_simp


subsection \<open>The links of the sequences\<close>

text \<open>
  C8, as stated, does not hold: \<open>append\<close> checks the parent only. Start from the sequence
  of the pots \<open>0\<close> and \<open>1\<close>. Pot \<open>1\<close> has no right neighbour, so linking pot \<open>0\<close> to its
  right passes the assertion; afterwards the right links run from \<open>0\<close> to \<open>1\<close> and back to
  \<open>0\<close>, a cycle. And a new pot \<open>2\<close> has no right neighbour, so linking pot \<open>1\<close> to its
  right passes the assertion; afterwards \<open>0.right\<close> is still \<open>1\<close> while \<open>1.left\<close> is \<open>2\<close>.
\<close>
theorem link_checks_the_parent_only:
  "chain two_pots [0, 1]
   \<and> (case run_ops [Link 1 Right 0] two_pots [[0, 1]] of
         Inl e \<Rightarrow> False
       | Inr (h', css') \<Rightarrow> right (cells h' 0) = Some 1 \<and> right (cells h' 1) = Some 0)
   \<and> (case run_ops [New False, Link 2 Right 1] two_pots [[0, 1]] of
         Inl e \<Rightarrow> False
       | Inr (h', css') \<Rightarrow> right (cells h' 0) = Some 1 \<and> left (cells h' 1) = Some 2)"
  by (simp add: chain_def two_pots_def append_def set_link_def new_pot_def)

text \<open>
  C8, amended: start from a well-formed sequence and apply any operations: constructing a
  pot, unlink, materialization and link, each on a parent among the pots followed so far,
  where the child of a link is one of these pots, has no neighbour on the side that will
  face the parent, and is not in the parent's own sequence. If all of them pass their
  assertions, every pot of the original sequence and every pot made or cut off on the way
  lies in a well-formed sequence: whenever \<open>a.right == b\<close> then \<open>b.left == a\<close>, and
  conversely, and there is no cycle, since walking from any pot in either direction ends
  and never meets the pot again. \<open>append\<close> on an occupied direction and \<open>detach\<close> on an
  empty one raise \<open>AssertionError\<close>.
\<close>
theorem chain_operations_keep_linkage:
  assumes "chain h cs" "ops_ok xs h [cs]" "run_ops xs h [cs] = Inr (h', css')"
  shows "chains h' css' \<and> set cs \<subseteq> set (concat css')
    \<and> (\<forall>a \<in> set (concat css'). \<forall>b. right (cells h' a) = Some b \<longrightarrow>
          b \<in> set (concat css') \<and> left (cells h' b) = Some a)
    \<and> (\<forall>a \<in> set (concat css'). \<forall>b. left (cells h' a) = Some b \<longrightarrow>
          b \<in> set (concat css') \<and> right (cells h' b) = Some a)
    \<and> (\<forall>a \<in> set (concat css'). \<forall>d. \<exists>ps. iter_dir h' a d = Some ps \<and> a \<notin> set ps)
    \<and> (getattr (cells h p) d \<noteq> None \<longrightarrow> append h p d c = Inl AssertionError)
    \<and> (getattr (cells h p) d = None \<longrightarrow> detach h p d = Inl AssertionError)"
proof -
  have "chains h [cs]" using assms(1) by (simp add: chains_single)
  from chains_run_ops[OF this assms(2,3)]
  have ch: "chains h' css'" and sub: "set cs \<subseteq> set (concat css')" by simp_all
  have inc: "\<exists>cs'. cs' \<in> set css' \<and> a \<in> set cs' \<and> chain h' cs'" if "a \<in> set (concat css')" for a
    using that chains_chain[OF ch] by auto
  have r: "b \<in> set (concat css') \<and> left (cells h' b) = Some a"
    if "a \<in> set (concat css')" "right (cells h' a) = Some b" for a b
  proof -
    from inc[OF that(1)] obtain cs' where c: "cs' \<in> set css'" "a \<in> set cs'" "chain h' cs'" by blast
    from chain_symmetric[OF c(3,2), of Right b] that(2) c(1) show ?thesis by auto
  qed
  have l: "b \<in> set (concat css') \<and> right (cells h' b) = Some a"
    if "a \<in> set (concat css')" "left (cells h' a) = Some b" for a b
  proof -
    from inc[OF that(1)] obtain cs' where c: "cs' \<in> set css'" "a \<in> set cs'" "chain h' cs'" by blast
    from chain_symmetric[OF c(3,2), of Left b] that(2) c(1) show ?thesis by auto
  qed
  have n: "\<exists>ps. iter_dir h' a d = Some ps \<and> a \<notin> set ps" if "a \<in> set (concat css')" for a d
  proof -
    from inc[OF that] obtain cs' where c: "a \<in> set cs'" "chain h' cs'" by blast
    from chain_no_cycle[OF c(2,1)] show ?thesis .
  qed
  have e: "getattr (cells h p) d \<noteq> None \<longrightarrow> append h p d c = Inl AssertionError"
    "getattr (cells h p) d = None \<longrightarrow> detach h p d = Inl AssertionError"
    by (auto simp: append_def detach_def)
  show ?thesis using ch sub r l n e by blast
qed

theorem chain_operations_keep_linkage_witness:
  "chain three_pots [0, 1, 2]
   \<and> ops_ok [Unlink 2 Left, Unlink 1 Left, Materialize 0 Right, New True, Link 3 Right 4,
             Link 4 Right 1] three_pots [[0, 1, 2]]
   \<and> (\<exists>h'. run_ops [Unlink 2 Left, Unlink 1 Left, Materialize 0 Right, New True,
                     Link 3 Right 4, Link 4 Right 1] three_pots [[0, 1, 2]]
              = Inr (h', [[0, 3, 4, 1], [2]])
          \<and> chains h' [[0, 3, 4, 1], [2]]
          \<and> iter_dir h' 0 Right = Some [3, 4, 1]
          \<and> left (cells h' 2) = None \<and> right (cells h' 2) = None)
   \<and> append three_pots 0 Right 2 = Inl AssertionError
   \<and> detach three_pots 2 Right = Inl AssertionError"
proof -
  let ?ops = "[Unlink 2 Left, Unlink 1 Left, Materialize 0 Right, New True, Link 3 Right 4,
               Link 4 Right 1]"
  have ch: "chain three_pots [0, 1, 2]"
    by (simp add: chain_def three_pots_def)
  have ok: "ops_ok ?ops three_pots [[0, 1, 2]]" by (rule three_pots_ok)
  obtain h' where run: "run_ops ?ops three_pots [[0, 1, 2]] = Inr (h', [[0, 3, 4, 1], [2]])"
    using three_pots_run by blast
  have g: "getattr (cells three_pots 0) Right \<noteq> None" "getattr (cells three_pots 2) Right = None"
    by (simp_all add: three_pots_def)
  from chain_operations_keep_linkage[OF ch ok run, of 0 Right 2]
    chain_operations_keep_linkage[OF ch ok run, of 2 Right 2] g
  have c: "chains h' [[0, 3, 4, 1], [2]]" "append three_pots 0 Right 2 = Inl AssertionError"
    "detach three_pots 2 Right = Inl AssertionError"
    by blast+
  then have "chain h' [0, 3, 4, 1]" "chain h' [2]" by (simp_all add: chains_def)
  then have "dpath h' Right 0 [3, 4, 1]" "left (cells h' 2) = None" "right (cells h' 2) = None"
    by (simp_all add: chain_def)
  then show ?thesis using ch ok run c iter_dir_dpath[of h' Right 0 "[3, 4, 1]"] by simp
qed

end
